theory Spec2Isabelle
  imports Complex_Main "HOL-Library.Multiset"
begin

section \<open>Data model of \<open>UnifiedLLMOrchestrator.ts\<close>\<close>

text \<open>
  The interfaces \<open>LLMProvider\<close>, \<open>LLMRequest\<close> and \<open>LLMResponse\<close> become records.
  The string unions of \<open>latency\<close> and \<open>cost\<close> become datatypes; the levels of \<open>cost\<close>
  carry the suffix \<open>_cost\<close> to keep them apart from those of \<open>latency\<close>.  Numbers that
  the orchestrator compares or adds (\<open>priority\<close>, \<open>rateLimit\<close>, request counts, clock
  readings in milliseconds) are integers; \<open>temperature\<close> is the decimal literal of
  the catalog and is never read by the orchestrator.  A field whose name is already
  taken by a field of \<open>LLMProvider\<close> or by a keyword carries the prefix \<open>request\<close> or
  \<open>response\<close>.
\<close>

datatype latency_class = low | medium | high

datatype cost_class = free | low_cost | medium_cost | high_cost

record LLMProvider =
  name :: string
  endpoint :: string
  model :: string
  maxTokens :: int
  temperature :: real
  priority :: int
  capabilities :: "string list"
  rateLimit :: int
  latency :: latency_class
  cost :: cost_class

record LLMRequest =
  prompt :: string
  systemPrompt :: "string option"
  requestMaxTokens :: "int option"
  requestTemperature :: "real option"
  preferredProvider :: "string option"
  requiredCapabilities :: "string list option"

record LLMResponse =
  responseText :: string
  provider :: string
  responseModel :: string
  tokensUsed :: int
  responseLatency :: int
  cached :: bool

text \<open>
  What \<open>generate\<close> throws: its own \<open>new Error('No LLM provider available')\<close>, or
  whatever the credential manager threw inside \<open>callProvider\<close>.
\<close>

datatype error = NoProviderAvailable | CallFailed string

text \<open>
  The class fields \<open>providers\<close> (a \<open>Map\<close>, which iterates in insertion order),
  \<open>requestCounts\<close> and \<open>lastReset\<close>, together with the two pieces of the
  environment that the methods touch: \<open>tick\<close> counts the clock readings taken so far
  (the \<open>k\<close>-th reading of \<open>new Date()\<close> or \<open>Date.now()\<close> is \<open>clk k\<close> for a clock
  \<open>clk\<close> passed to every method), and \<open>callLog\<close> lists the names of the providers
  that \<open>callProvider\<close> was entered for, oldest first.  Console output is left out.
\<close>

type_synonym clock = "nat \<Rightarrow> int"

record state =
  providers :: "(string \<times> LLMProvider) list"
  requestCounts :: "string \<rightharpoonup> int"
  lastReset :: int
  tick :: nat
  callLog :: "string list"

section \<open>The provider catalog\<close>

definition providerConfigs :: "LLMProvider list" where
  "providerConfigs =
    [\<lparr>name = ''Claude'', endpoint = ''https://api.anthropic.com/v1/messages'',
      model = ''claude-3-opus-20240229'', maxTokens = 4096, temperature = 7 / 10,
      priority = 1,
      capabilities = [''reasoning'', ''coding'', ''analysis'', ''creative'', ''long-context''],
      rateLimit = 60, latency = medium, cost = high_cost\<rparr>,
     \<lparr>name = ''OpenAI'', endpoint = ''https://api.openai.com/v1/chat/completions'',
      model = ''gpt-4-turbo-preview'', maxTokens = 4096, temperature = 7 / 10,
      priority = 2,
      capabilities = [''reasoning'', ''coding'', ''analysis'', ''creative'', ''function-calling''],
      rateLimit = 60, latency = medium, cost = high_cost\<rparr>,
     \<lparr>name = ''DeepSeek'', endpoint = ''https://api.deepseek.com/v1/chat/completions'',
      model = ''deepseek-chat'', maxTokens = 4096, temperature = 7 / 10,
      priority = 3,
      capabilities = [''reasoning'', ''coding'', ''math'', ''analysis''],
      rateLimit = 100, latency = medium, cost = low_cost\<rparr>,
     \<lparr>name = ''Ollama'', endpoint = ''http://localhost:11434/api/generate'',
      model = ''llama2'', maxTokens = 4096, temperature = 7 / 10,
      priority = 4,
      capabilities = [''reasoning'', ''coding'', ''local'', ''offline''],
      rateLimit = 1000, latency = low, cost = free\<rparr>,
     \<lparr>name = ''Gemini'', endpoint = ''https://generativelanguage.googleapis.com/v1beta/models'',
      model = ''gemini-pro'', maxTokens = 4096, temperature = 7 / 10,
      priority = 5,
      capabilities = [''reasoning'', ''multimodal'', ''analysis'', ''vision''],
      rateLimit = 60, latency = medium, cost = medium_cost\<rparr>,
     \<lparr>name = ''Cohere'', endpoint = ''https://api.cohere.ai/v1/chat'',
      model = ''command'', maxTokens = 4096, temperature = 7 / 10,
      priority = 6,
      capabilities = [''reasoning'', ''enterprise'', ''rag'', ''embeddings''],
      rateLimit = 100, latency = medium, cost = medium_cost\<rparr>,
     \<lparr>name = ''HuggingFace'', endpoint = ''https://api-inference.huggingface.co/models'',
      model = ''mistralai/Mixtral-8x7B-Instruct-v0.1'', maxTokens = 4096, temperature = 7 / 10,
      priority = 7,
      capabilities = [''reasoning'', ''open-source'', ''custom-models''],
      rateLimit = 30, latency = high, cost = low_cost\<rparr>,
     \<lparr>name = ''Mistral'', endpoint = ''https://api.mistral.ai/v1/chat/completions'',
      model = ''mistral-large-latest'', maxTokens = 4096, temperature = 7 / 10,
      priority = 8,
      capabilities = [''reasoning'', ''coding'', ''multilingual'', ''european''],
      rateLimit = 60, latency = medium, cost = medium_cost\<rparr>,
     \<lparr>name = ''Perplexity'', endpoint = ''https://api.perplexity.ai/chat/completions'',
      model = ''pplx-7b-online'', maxTokens = 4096, temperature = 7 / 10,
      priority = 9,
      capabilities = [''search'', ''real-time'', ''citations'', ''web-access''],
      rateLimit = 20, latency = medium, cost = medium_cost\<rparr>,
     \<lparr>name = ''Groq'', endpoint = ''https://api.groq.com/openai/v1/chat/completions'',
      model = ''mixtral-8x7b-32768'', maxTokens = 4096, temperature = 7 / 10,
      priority = 10,
      capabilities = [''fast-inference'', ''reasoning'', ''speed-optimized''],
      rateLimit = 100, latency = low, cost = low_cost\<rparr>,
     \<lparr>name = ''TogetherAI'', endpoint = ''https://api.together.xyz/v1/chat/completions'',
      model = ''togethercomputer/llama-2-70b-chat'', maxTokens = 4096, temperature = 7 / 10,
      priority = 11,
      capabilities = [''fine-tuning'', ''custom-models'', ''reasoning''],
      rateLimit = 60, latency = medium, cost = low_cost\<rparr>]"

section \<open>Construction\<close>

text \<open>\<open>Map.prototype.set\<close> on an insertion-ordered map: an existing key keeps its place.\<close>

fun map_set :: "'k \<Rightarrow> 'v \<Rightarrow> ('k \<times> 'v) list \<Rightarrow> ('k \<times> 'v) list" where
  "map_set k v [] = [(k, v)]"
| "map_set k v ((k', v') # kvs) =
     (if k = k' then (k, v) # kvs else (k', v') # map_set k v kvs)"

text \<open>
  \<open>initializeProviders\<close>: the loop over the catalog.  \<open>isConfigured\<close> is
  \<open>credentialManager.isConfigured\<close>, which lives outside this file.
\<close>

fun initializeProviders :: "(string \<Rightarrow> bool) \<Rightarrow> LLMProvider list \<Rightarrow> state \<Rightarrow> state" where
  "initializeProviders isConfigured [] st = st"
| "initializeProviders isConfigured (config # configs) st =
     (if isConfigured (name config) \<or> name config = ''Ollama''
      then initializeProviders isConfigured configs
             (st\<lparr>providers := map_set (name config) config (providers st),
                 requestCounts := (requestCounts st)(name config \<mapsto> 0)\<rparr>)
      else initializeProviders isConfigured configs st)"

text \<open>
  The constructor: the field initialisers (\<open>lastReset = new Date()\<close> takes the first
  clock reading), then \<open>initializeProviders\<close> over the catalog.
\<close>

definition newOrchestrator :: "clock \<Rightarrow> (string \<Rightarrow> bool) \<Rightarrow> state" where
  "newOrchestrator clk isConfigured =
     initializeProviders isConfigured providerConfigs
       \<lparr>providers = [], requestCounts = Map.empty, lastReset = clk 0, tick = 1, callLog = []\<rparr>"

section \<open>Selection and rate limiting\<close>

text \<open>\<open>getAvailableProviders\<close>: the map's values, sorted by priority (the sort is stable).\<close>

definition getAvailableProviders :: "state \<Rightarrow> LLMProvider list" where
  "getAvailableProviders st = sort_key priority (map snd (providers st))"

text \<open>\<open>this.requestCounts.get(n) || 0\<close>\<close>

definition countOf :: "state \<Rightarrow> string \<Rightarrow> int" where
  "countOf st n = (case requestCounts st n of None \<Rightarrow> 0 | Some c \<Rightarrow> c)"

text \<open>\<open>this.requestCounts.forEach((_, key) => this.requestCounts.set(key, 0))\<close>\<close>

definition resetCounts :: "(string \<rightharpoonup> int) \<Rightarrow> (string \<rightharpoonup> int)" where
  "resetCounts m = (\<lambda>key. map_option (\<lambda>_. 0) (m key))"

text \<open>
  \<open>isWithinRateLimit\<close>: reads the clock, resets every count when more than 60000 ms
  have passed since \<open>lastReset\<close>, and compares the provider's count with its limit.
\<close>

definition isWithinRateLimit :: "clock \<Rightarrow> LLMProvider \<Rightarrow> state \<Rightarrow> bool \<times> state" where
  "isWithinRateLimit clk p st =
     (let now = clk (tick st);
          st1 = st\<lparr>tick := tick st + 1\<rparr>;
          st2 = (if now - lastReset st1 > 60000
                 then st1\<lparr>requestCounts := resetCounts (requestCounts st1),
                          lastReset := now\<rparr>
                 else st1)
      in (countOf st2 (name p) < rateLimit p, st2))"

text \<open>\<open>recordRequest\<close>\<close>

definition recordRequest :: "LLMProvider \<Rightarrow> state \<Rightarrow> state" where
  "recordRequest p st = st\<lparr>requestCounts := (requestCounts st)(name p \<mapsto> countOf st (name p) + 1)\<rparr>"

text \<open>
  The two \<open>for\<close> loops of \<open>selectProvider\<close> and the loop of \<open>getFallbackProvider\<close>
  have one shape: walk a list, return the first provider that satisfies a test and
  is within its rate limit.  The test is evaluated first and \<open>isWithinRateLimit\<close> is
  called only when it holds, as \<open>&&\<close> does.
\<close>

fun firstWithinRateLimit ::
  "clock \<Rightarrow> (LLMProvider \<Rightarrow> bool) \<Rightarrow> LLMProvider list \<Rightarrow> state \<Rightarrow> LLMProvider option \<times> state" where
  "firstWithinRateLimit clk test [] st = (None, st)"
| "firstWithinRateLimit clk test (p # ps) st =
     (if test p
      then (case isWithinRateLimit clk p st of
              (True, st') \<Rightarrow> (Some p, st')
            | (False, st') \<Rightarrow> firstWithinRateLimit clk test ps st')
      else firstWithinRateLimit clk test ps st)"

text \<open>\<open>request.requiredCapabilities.every(cap => provider.capabilities.includes(cap))\<close>\<close>

definition hasAllCapabilities :: "string list \<Rightarrow> LLMProvider \<Rightarrow> bool" where
  "hasAllCapabilities required p = list_all (\<lambda>cap. cap \<in> set (capabilities p)) required"

text \<open>
  \<open>selectProvider\<close>.  A preferred name that is the empty string is falsy and is
  skipped like an absent one; so is an absent or empty capability list.
\<close>

definition selectProvider :: "clock \<Rightarrow> LLMRequest \<Rightarrow> state \<Rightarrow> LLMProvider option \<times> state" where
  "selectProvider clk request st =
     (let available = getAvailableProviders st in
      if length available = 0 then (None, st)
      else
        let (found, st1) =
              (case preferredProvider request of
                 None \<Rightarrow> (None, st)
               | Some n \<Rightarrow>
                   if n = [] then (None, st)
                   else (case map_of (providers st) n of
                           None \<Rightarrow> (None, st)
                         | Some preferred \<Rightarrow>
                             (case isWithinRateLimit clk preferred st of
                                (True, st') \<Rightarrow> (Some preferred, st')
                              | (False, st') \<Rightarrow> (None, st'))))
        in if found \<noteq> None then (found, st1)
           else
             let (found2, st2) =
                   (case requiredCapabilities request of
                      None \<Rightarrow> (None, st1)
                    | Some required \<Rightarrow>
                        if length required > 0
                        then firstWithinRateLimit clk (hasAllCapabilities required) available st1
                        else (None, st1))
             in if found2 \<noteq> None then (found2, st2)
                else firstWithinRateLimit clk (\<lambda>_. True) available st2)"

section \<open>Dispatch\<close>

text \<open>\<open>Array.prototype.findIndex\<close>: the first index that satisfies the test, or \<open>-1\<close>.\<close>

fun findIndex :: "('a \<Rightarrow> bool) \<Rightarrow> 'a list \<Rightarrow> int" where
  "findIndex test [] = -1"
| "findIndex test (x # xs) =
     (if test x then 0 else (let i = findIndex test xs in if i < 0 then -1 else i + 1))"

text \<open>\<open>getFallbackProvider\<close>: the loop runs over the indices after \<open>currentIndex\<close>.\<close>

definition getFallbackProvider :: "clock \<Rightarrow> LLMProvider \<Rightarrow> state \<Rightarrow> LLMProvider option \<times> state" where
  "getFallbackProvider clk current st =
     (let available = getAvailableProviders st;
          currentIndex = findIndex (\<lambda>p. name p = name current) available
      in firstWithinRateLimit clk (\<lambda>_. True) (drop (nat (currentIndex + 1)) available) st)"

text \<open>
  \<open>callProvider\<close>: fetches the credential and returns the placeholder text.  The
  only step that can throw is \<open>credentialManager.getCredential\<close>, which lives
  outside this file and is a parameter here: \<open>Inl\<close> is what it threw.
\<close>

definition callProvider ::
  "(string \<Rightarrow> error + string) \<Rightarrow> LLMProvider \<Rightarrow> LLMRequest \<Rightarrow> state \<Rightarrow> (error + string) \<times> state" where
  "callProvider getCredential p request st =
     (let st' = st\<lparr>callLog := callLog st @ [name p]\<rparr> in
      case getCredential (name p) of
        Inl e \<Rightarrow> (Inl e, st')
      | Inr credential \<Rightarrow> (Inr (''[Response from '' @ name p @ '']''), st'))"

text \<open>\<open>estimateTokens\<close>: \<open>Math.ceil(text.length / 4)\<close>\<close>

definition estimateTokens :: "string \<Rightarrow> int" where
  "estimateTokens t = (int (length t) + 3) div 4"

text \<open>The response object built in both branches of \<open>generate\<close>; it reads the clock once.\<close>

definition respond ::
  "clock \<Rightarrow> LLMProvider \<Rightarrow> string \<Rightarrow> int \<Rightarrow> state \<Rightarrow> LLMResponse \<times> state" where
  "respond clk p t startTime st =
     (\<lparr>responseText = t, provider = name p, responseModel = model p,
       tokensUsed = estimateTokens t, responseLatency = clk (tick st) - startTime,
       cached = False\<rparr>,
      st\<lparr>tick := tick st + 1\<rparr>)"

text \<open>
  \<open>generate\<close>: a \<open>throw\<close> is the result \<open>Inl\<close>.  The fallback's \<open>callProvider\<close> is
  inside the \<open>catch\<close> block, so what it throws leaves \<open>generate\<close>.  A call of
  \<open>generate\<close> runs from its start to its end: other calls that could run while it
  awaits \<open>callProvider\<close> are not part of this model.
\<close>

definition generate ::
  "clock \<Rightarrow> (string \<Rightarrow> error + string) \<Rightarrow> LLMRequest \<Rightarrow> state \<Rightarrow> (error + LLMResponse) \<times> state" where
  "generate clk getCredential request st =
     (case selectProvider clk request st of
        (None, st1) \<Rightarrow> (Inl NoProviderAvailable, st1)
      | (Some selected, st1) \<Rightarrow>
          let startTime = clk (tick st1);
              st2 = st1\<lparr>tick := tick st1 + 1\<rparr>;
              st3 = recordRequest selected st2
          in (case callProvider getCredential selected request st3 of
                (Inr t, st4) \<Rightarrow>
                  (let (response, st5) = respond clk selected t startTime st4
                   in (Inr response, st5))
              | (Inl err, st4) \<Rightarrow>
                  (case getFallbackProvider clk selected st4 of
                     (Some fallback, st5) \<Rightarrow>
                       (case callProvider getCredential fallback request st5 of
                          (Inr t, st6) \<Rightarrow>
                            (let (response, st7) = respond clk fallback t startTime st6
                             in (Inr response, st7))
                        | (Inl err2, st6) \<Rightarrow> (Inl err2, st6))
                   | (None, st5) \<Rightarrow> (Inl err, st5))))"

section \<open>Predicates on states\<close>

text \<open>
  A well-formed registry: the keys of \<open>providers\<close> are distinct, as in a \<open>Map\<close>, and
  each provider is stored under its own name, as \<open>initializeProviders\<close> stores it.
\<close>

definition wellFormed :: "state \<Rightarrow> bool" where
  "wellFormed st \<longleftrightarrow>
     distinct (map fst (providers st)) \<and> list_all (\<lambda>(k, p). name p = k) (providers st)"

text \<open>Every enabled provider's count lies between 0 and its limit.\<close>

definition countsWithinLimits :: "state \<Rightarrow> bool" where
  "countsWithinLimits st \<longleftrightarrow>
     list_all (\<lambda>(k, p). 0 \<le> countOf st k \<and> countOf st k \<le> rateLimit p) (providers st)"

text \<open>
  The window does not roll over: no clock reading from now on is more than 60000 ms
  after \<open>lastReset\<close>.
\<close>

definition noRollover :: "clock \<Rightarrow> state \<Rightarrow> bool" where
  "noRollover clk st \<longleftrightarrow> (\<forall>i. tick st \<le> i \<longrightarrow> clk i - lastReset st \<le> 60000)"

text \<open>
  The states an orchestrator object can be in: built by the constructor, then driven
  through its public methods that change state (\<open>selectProvider\<close> and \<open>generate\<close>).
\<close>

inductive reachable :: "clock \<Rightarrow> state \<Rightarrow> bool" for clk :: clock where
  constructed: "reachable clk (newOrchestrator clk isConfigured)"
| selected: "reachable clk st \<Longrightarrow> reachable clk (snd (selectProvider clk request st))"
| generated: "reachable clk st \<Longrightarrow> reachable clk (snd (generate clk getCredential request st))"

text \<open>Any number of public calls, one after the other.\<close>

inductive calls :: "clock \<Rightarrow> state \<Rightarrow> state \<Rightarrow> bool" for clk :: clock where
  no_call: "calls clk st st"
| then_select: "calls clk st st' \<Longrightarrow> calls clk st (snd (selectProvider clk request st'))"
| then_generate: "calls clk st st' \<Longrightarrow> calls clk st (snd (generate clk getCredential request st'))"

section \<open>Example registries\<close>

text \<open>
  The two-provider scenario of the specification: \<open>A\<close> (priority 1, limit 1) and
  \<open>B\<close> (priority 2, limit 5), and a third provider \<open>C\<close> (priority 3, limit 5).
\<close>

definition providerA :: LLMProvider where
  "providerA = \<lparr>name = ''A'', endpoint = ''a'', model = ''model-a'', maxTokens = 4096,
     temperature = 7 / 10, priority = 1, capabilities = [''reasoning''], rateLimit = 1,
     latency = low, cost = free\<rparr>"

definition providerB :: LLMProvider where
  "providerB = \<lparr>name = ''B'', endpoint = ''b'', model = ''model-b'', maxTokens = 4096,
     temperature = 7 / 10, priority = 2, capabilities = [''reasoning'', ''vision''], rateLimit = 5,
     latency = low, cost = free\<rparr>"

definition providerC :: LLMProvider where
  "providerC = \<lparr>name = ''C'', endpoint = ''c'', model = ''model-c'', maxTokens = 4096,
     temperature = 7 / 10, priority = 3, capabilities = [''reasoning''], rateLimit = 5,
     latency = low, cost = free\<rparr>"

definition registryOf :: "LLMProvider list \<Rightarrow> (string \<Rightarrow> int) \<Rightarrow> state" where
  "registryOf ps counts =
     \<lparr>providers = map (\<lambda>p. (name p, p)) ps,
      requestCounts = (\<lambda>key. if key \<in> set (map name ps) then Some (counts key) else None),
      lastReset = 0, tick = 0, callLog = []\<rparr>"

definition plainRequest :: LLMRequest where
  "plainRequest = \<lparr>prompt = ''hello'', systemPrompt = None, requestMaxTokens = None,
     requestTemperature = None, preferredProvider = None, requiredCapabilities = None\<rparr>"

definition allFail :: "string \<Rightarrow> error + string" where
  "allFail n = Inl (CallFailed n)"

definition allSucceed :: "string \<Rightarrow> error + string" where
  "allSucceed n = Inr ''key''"

definition frozenClock :: clock where
  "frozenClock = (\<lambda>_. 0)"

text \<open>
  A clock whose third reading lies more than a minute after the first two, and a
  credential manager that throws for \<open>A\<close> only.
\<close>

definition jumpingClock :: clock where
  "jumpingClock i = (if i = 0 then 0 else if i = 1 then 10 else 70000)"

definition firstFails :: "string \<Rightarrow> error + string" where
  "firstFails n = (if n = ''A'' then Inl (CallFailed n) else Inr ''key'')"

section \<open>Relations between states\<close>

text \<open>Time has passed between two states, and nothing else has changed.\<close>

definition laterThan :: "state \<Rightarrow> state \<Rightarrow> bool" where
  "laterThan st st' \<longleftrightarrow>
     providers st' = providers st \<and> requestCounts st' = requestCounts st \<and>
     lastReset st' = lastReset st \<and> callLog st' = callLog st \<and> tick st \<le> tick st'"

text \<open>Only admission checks ran between two states: time passed, and the window was
  possibly reset.\<close>

definition admissionOnly :: "state \<Rightarrow> state \<Rightarrow> bool" where
  "admissionOnly st st' \<longleftrightarrow>
     providers st' = providers st \<and> callLog st' = callLog st \<and> tick st \<le> tick st' \<and>
     ((requestCounts st' = requestCounts st \<and> lastReset st' = lastReset st) \<or>
      (requestCounts st' = resetCounts (requestCounts st) \<and> lastReset st < lastReset st'))"

text \<open>The three rules of \<open>selectProvider\<close>, one at a time.\<close>

definition preferredRule :: "clock \<Rightarrow> LLMRequest \<Rightarrow> state \<Rightarrow> LLMProvider option \<times> state" where
  "preferredRule clk request st =
     (case preferredProvider request of
        None \<Rightarrow> (None, st)
      | Some n \<Rightarrow>
          if n = [] then (None, st)
          else (case map_of (providers st) n of
                  None \<Rightarrow> (None, st)
                | Some preferred \<Rightarrow>
                    (if fst (isWithinRateLimit clk preferred st)
                     then (Some preferred, snd (isWithinRateLimit clk preferred st))
                     else (None, snd (isWithinRateLimit clk preferred st)))))"

definition capabilityRule ::
  "clock \<Rightarrow> LLMRequest \<Rightarrow> LLMProvider list \<Rightarrow> state \<Rightarrow> LLMProvider option \<times> state" where
  "capabilityRule clk request available st =
     (case requiredCapabilities request of
        None \<Rightarrow> (None, st)
      | Some required \<Rightarrow>
          if required \<noteq> []
          then firstWithinRateLimit clk (hasAllCapabilities required) available st
          else (None, st))"

text \<open>The state in which the first \<open>callProvider\<close> returns or throws: the start time was
  read, the request was recorded for the selected provider, and the call was logged.\<close>

definition afterFirstCall :: "LLMProvider \<Rightarrow> state \<Rightarrow> state" where
  "afterFirstCall selected st1 =
     (recordRequest selected (st1\<lparr>tick := tick st1 + 1\<rparr>))
       \<lparr>callLog := callLog st1 @ [name selected]\<rparr>"

text \<open>The state in which the fallback's \<open>callProvider\<close> returns or throws.\<close>

definition afterFallbackCall :: "LLMProvider \<Rightarrow> state \<Rightarrow> state" where
  "afterFallbackCall fallback st5 = st5\<lparr>callLog := callLog st5 @ [name fallback]\<rparr>"

text \<open>The preferred-provider rule of \<open>selectProvider\<close> returns nothing: no preferred name
  is set (or it is the empty string), or the named provider is not enabled, or it fails
  its admission check.\<close>

definition preferredUnavailable :: "clock \<Rightarrow> LLMRequest \<Rightarrow> state \<Rightarrow> bool" where
  "preferredUnavailable clk request st =
     (case preferredProvider request of
        None \<Rightarrow> True
      | Some n \<Rightarrow>
          n = [] \<or>
          (case map_of (providers st) n of
             None \<Rightarrow> True
           | Some preferred \<Rightarrow> \<not> fst (isWithinRateLimit clk preferred st)))"

text \<open>Between two states the window start has not moved back, and if it has not moved at
  all (the two states lie in the same window) no count has dropped.\<close>

definition countsGrow :: "state \<Rightarrow> state \<Rightarrow> bool" where
  "countsGrow st st' \<longleftrightarrow>
     lastReset st \<le> lastReset st' \<and>
     (lastReset st' = lastReset st \<longrightarrow> (\<forall>k. countOf st k \<le> countOf st' k))"

section \<open>Admission checks and the selection loops\<close>

lemma isWithinRateLimit_frame:
  "providers (snd (isWithinRateLimit clk p st)) = providers st"
  "callLog (snd (isWithinRateLimit clk p st)) = callLog st"
  "tick (snd (isWithinRateLimit clk p st)) = Suc (tick st)"
  by (simp_all add: isWithinRateLimit_def Let_def)

lemma isWithinRateLimit_result:
  "fst (isWithinRateLimit clk p st)
     \<longleftrightarrow> countOf (snd (isWithinRateLimit clk p st)) (name p) < rateLimit p"
  by (simp add: isWithinRateLimit_def Let_def)

lemma isWithinRateLimit_stale:
  "clk (tick st) - lastReset st > 60000 \<Longrightarrow>
     snd (isWithinRateLimit clk p st) =
       st\<lparr>tick := Suc (tick st), requestCounts := resetCounts (requestCounts st),
          lastReset := clk (tick st)\<rparr>"
  by (simp add: isWithinRateLimit_def Let_def)

lemma isWithinRateLimit_not_stale:
  "\<not> clk (tick st) - lastReset st > 60000 \<Longrightarrow>
     snd (isWithinRateLimit clk p st) = st\<lparr>tick := Suc (tick st)\<rparr>"
  by (simp add: isWithinRateLimit_def Let_def)

lemma countOf_resetCounts [simp]:
  "countOf (st\<lparr>requestCounts := resetCounts m\<rparr>) k = 0"
  by (simp add: countOf_def resetCounts_def split: option.splits)

lemma countOf_tick [simp]: "countOf (st\<lparr>tick := t\<rparr>) k = countOf st k"
  by (simp add: countOf_def)

lemma countOf_callLog [simp]: "countOf (st\<lparr>callLog := t\<rparr>) k = countOf st k"
  by (simp add: countOf_def)

lemma countOf_lastReset [simp]: "countOf (st\<lparr>lastReset := t\<rparr>) k = countOf st k"
  by (simp add: countOf_def)

lemma countOf_cong: "requestCounts st' = requestCounts st \<Longrightarrow> countOf st' k = countOf st k"
  by (simp add: countOf_def)

lemma noRollover_tick:
  "noRollover clk st \<Longrightarrow> noRollover clk (st\<lparr>tick := Suc (tick st)\<rparr>)"
  by (simp add: noRollover_def)

lemma isWithinRateLimit_noRollover:
  assumes "noRollover clk st"
  shows "isWithinRateLimit clk p st = (countOf st (name p) < rateLimit p, st\<lparr>tick := Suc (tick st)\<rparr>)"
proof -
  have "\<not> clk (tick st) - lastReset st > 60000"
    using assms by (auto simp: noRollover_def not_less)
  then show ?thesis
    by (simp add: isWithinRateLimit_def Let_def)
qed

lemma laterThan_refl [simp]: "laterThan st st"
  by (simp add: laterThan_def)

lemma laterThan_trans: "laterThan a b \<Longrightarrow> laterThan b c \<Longrightarrow> laterThan a c"
  by (simp add: laterThan_def)

lemma laterThan_noRollover: "laterThan st st' \<Longrightarrow> noRollover clk st \<Longrightarrow> noRollover clk st'"
  by (simp add: laterThan_def noRollover_def)

lemma laterThan_countOf: "laterThan st st' \<Longrightarrow> countOf st' k = countOf st k"
  by (simp add: laterThan_def countOf_def)

lemma firstWithinRateLimit_noRollover:
  "noRollover clk st \<Longrightarrow>
     fst (firstWithinRateLimit clk test ps st)
       = find (\<lambda>p. test p \<and> countOf st (name p) < rateLimit p) ps
     \<and> laterThan st (snd (firstWithinRateLimit clk test ps st))"
proof (induction ps arbitrary: st)
  case Nil
  then show ?case by simp
next
  case (Cons p ps)
  let ?st1 = "st\<lparr>tick := Suc (tick st)\<rparr>"
  have later: "laterThan st ?st1" by (simp add: laterThan_def)
  have nr: "noRollover clk ?st1" using Cons.prems by (rule noRollover_tick)
  have ih: "fst (firstWithinRateLimit clk test ps ?st1)
       = find (\<lambda>p. test p \<and> countOf st (name p) < rateLimit p) ps
     \<and> laterThan ?st1 (snd (firstWithinRateLimit clk test ps ?st1))"
    using Cons.IH [OF nr] by simp
  show ?case
  proof (cases "test p")
    case False
    then show ?thesis using Cons.IH [OF Cons.prems] by simp
  next
    case True
    show ?thesis
    proof (cases "countOf st (name p) < rateLimit p")
      case True
      with \<open>test p\<close> show ?thesis
        by (simp add: isWithinRateLimit_noRollover [OF Cons.prems] later)
    next
      case False
      with \<open>test p\<close> ih show ?thesis
        by (auto simp: isWithinRateLimit_noRollover [OF Cons.prems] intro: laterThan_trans [OF later])
    qed
  qed
qed

lemma resetCounts_idem [simp]: "resetCounts (resetCounts m) = resetCounts m"
  by (rule ext) (simp add: resetCounts_def option.map_comp o_def)

lemma admissionOnly_refl [simp]: "admissionOnly st st"
  by (simp add: admissionOnly_def)

lemma admissionOnly_trans:
  "admissionOnly a b \<Longrightarrow> admissionOnly b c \<Longrightarrow> admissionOnly a c"
  unfolding admissionOnly_def by (elim conjE disjE) auto

lemma isWithinRateLimit_admissionOnly:
  "admissionOnly st (snd (isWithinRateLimit clk p st))"
  by (simp add: isWithinRateLimit_def Let_def admissionOnly_def)

lemma firstWithinRateLimit_admissionOnly:
  "admissionOnly st (snd (firstWithinRateLimit clk test ps st))"
proof (induction ps arbitrary: st)
  case Nil
  then show ?case by simp
next
  case (Cons p ps)
  show ?case
  proof (cases "test p")
    case False
    then show ?thesis using Cons.IH by simp
  next
    case True
    obtain ok st' where r: "isWithinRateLimit clk p st = (ok, st')"
      by (cases "isWithinRateLimit clk p st")
    have a: "admissionOnly st st'"
      using isWithinRateLimit_admissionOnly [of st clk p] r by simp
    show ?thesis
    proof (cases ok)
      case True
      with \<open>test p\<close> r a show ?thesis by simp
    next
      case False
      with \<open>test p\<close> r show ?thesis
        using admissionOnly_trans [OF a Cons.IH [of st']] by simp
    qed
  qed
qed

text \<open>What the loop returns passed the test and its own admission check, in the state
  the loop ends in.\<close>

lemma firstWithinRateLimit_Some:
  "fst (firstWithinRateLimit clk test ps st) = Some q \<Longrightarrow>
     q \<in> set ps \<and> test q \<and>
     countOf (snd (firstWithinRateLimit clk test ps st)) (name q) < rateLimit q"
proof (induction ps arbitrary: st)
  case Nil
  then show ?case by simp
next
  case (Cons p ps)
  show ?case
  proof (cases "test p")
    case False
    then show ?thesis using Cons by simp
  next
    case True
    obtain ok st' where r: "isWithinRateLimit clk p st = (ok, st')"
      by (cases "isWithinRateLimit clk p st")
    show ?thesis
    proof (cases ok)
      case True
      have "countOf st' (name p) < rateLimit p"
        using isWithinRateLimit_result [of clk p st] r True by simp
      with True \<open>test p\<close> r Cons.prems show ?thesis by simp
    next
      case False
      with \<open>test p\<close> r Cons.prems Cons.IH [of st'] show ?thesis by simp
    qed
  qed
qed

lemma set_getAvailableProviders [simp]:
  "set (getAvailableProviders st) = snd ` set (providers st)"
  by (simp add: getAvailableProviders_def)

lemma length_getAvailableProviders [simp]:
  "length (getAvailableProviders st) = length (providers st)"
  by (simp add: getAvailableProviders_def)

lemma getAvailableProviders_cong:
  "providers st' = providers st \<Longrightarrow> getAvailableProviders st' = getAvailableProviders st"
  by (simp add: getAvailableProviders_def)

lemma selectProvider_rules:
  "selectProvider clk request st =
     (if providers st = [] then (None, st)
      else if fst (preferredRule clk request st) \<noteq> None then preferredRule clk request st
      else if fst (capabilityRule clk request (getAvailableProviders st)
                     (snd (preferredRule clk request st))) \<noteq> None
      then capabilityRule clk request (getAvailableProviders st) (snd (preferredRule clk request st))
      else firstWithinRateLimit clk (\<lambda>_. True) (getAvailableProviders st)
             (snd (capabilityRule clk request (getAvailableProviders st)
                     (snd (preferredRule clk request st)))))"
proof -
  have p: "(case preferredProvider request of
                 None \<Rightarrow> (None, st)
               | Some n \<Rightarrow>
                   if n = [] then (None, st)
                   else (case map_of (providers st) n of
                           None \<Rightarrow> (None, st)
                         | Some preferred \<Rightarrow>
                             (case isWithinRateLimit clk preferred st of
                                (True, st') \<Rightarrow> (Some preferred, st')
                              | (False, st') \<Rightarrow> (None, st')))) = preferredRule clk request st"
    unfolding preferredRule_def
    by (simp split: option.splits prod.splits bool.splits)
  have c: "\<And>s. (case requiredCapabilities request of
                      None \<Rightarrow> (None, s)
                    | Some required \<Rightarrow>
                        if length required > 0
                        then firstWithinRateLimit clk (hasAllCapabilities required) (getAvailableProviders st) s
                        else (None, s)) = capabilityRule clk request (getAvailableProviders st) s"
    unfolding capabilityRule_def by (simp split: option.splits)
  show ?thesis
    unfolding selectProvider_def Let_def p c
    by (simp add: case_prod_beta)
qed

lemma preferredRule_admissionOnly: "admissionOnly st (snd (preferredRule clk request st))"
  unfolding preferredRule_def
  by (simp add: isWithinRateLimit_admissionOnly split: option.splits)

lemma capabilityRule_admissionOnly:
  "admissionOnly st (snd (capabilityRule clk request available st))"
  unfolding capabilityRule_def
  by (simp add: firstWithinRateLimit_admissionOnly split: option.splits)

lemma selectProvider_admissionOnly:
  "admissionOnly st (snd (selectProvider clk request st))"
  unfolding selectProvider_rules
  using preferredRule_admissionOnly [of st clk request]
    capabilityRule_admissionOnly [of "snd (preferredRule clk request st)" clk request "getAvailableProviders st"]
    firstWithinRateLimit_admissionOnly [of "snd (capabilityRule clk request (getAvailableProviders st)
                     (snd (preferredRule clk request st)))" clk "\<lambda>_. True" "getAvailableProviders st"]
  by (auto intro: admissionOnly_trans)

lemma preferredRule_hit:
  assumes "preferredProvider request = Some n" and "n \<noteq> []"
    and "map_of (providers st) n = Some p"
    and "fst (isWithinRateLimit clk p st)"
  shows "preferredRule clk request st = (Some p, snd (isWithinRateLimit clk p st))"
  using assms by (simp add: preferredRule_def)

section \<open>Recording a request\<close>

lemma recordRequest_frame:
  "providers (recordRequest p st) = providers st"
  "lastReset (recordRequest p st) = lastReset st"
  "callLog (recordRequest p st) = callLog st"
  "tick (recordRequest p st) = tick st"
  by (simp_all add: recordRequest_def)

lemma recordRequest_countOf:
  "countOf (recordRequest p st) k = (if k = name p then countOf st k + 1 else countOf st k)"
  by (simp add: recordRequest_def countOf_def)

section \<open>The steps of \<open>generate\<close>\<close>

lemma callProvider_eq:
  "callProvider getCredential p request st =
     (case getCredential (name p) of
        Inl e \<Rightarrow> Inl e
      | Inr credential \<Rightarrow> Inr (''[Response from '' @ name p @ '']''),
      st\<lparr>callLog := callLog st @ [name p]\<rparr>)"
  by (simp add: callProvider_def Let_def split: sum.splits)

lemma generate_steps:
  "generate clk getCredential request st =
     (case fst (selectProvider clk request st) of
        None \<Rightarrow> (Inl NoProviderAvailable, snd (selectProvider clk request st))
      | Some selected \<Rightarrow>
          (case getCredential (name selected) of
             Inr credential \<Rightarrow>
               (Inr (fst (respond clk selected (''[Response from '' @ name selected @ '']'')
                            (clk (tick (snd (selectProvider clk request st))))
                            (afterFirstCall selected (snd (selectProvider clk request st))))),
                (afterFirstCall selected (snd (selectProvider clk request st)))
                  \<lparr>tick := tick (afterFirstCall selected (snd (selectProvider clk request st))) + 1\<rparr>)
           | Inl err \<Rightarrow>
               (case fst (getFallbackProvider clk selected
                            (afterFirstCall selected (snd (selectProvider clk request st)))) of
                  None \<Rightarrow>
                    (Inl err,
                     snd (getFallbackProvider clk selected
                            (afterFirstCall selected (snd (selectProvider clk request st)))))
                | Some fallback \<Rightarrow>
                    (case getCredential (name fallback) of
                       Inr credential \<Rightarrow>
                         (Inr (fst (respond clk fallback (''[Response from '' @ name fallback @ '']'')
                                      (clk (tick (snd (selectProvider clk request st))))
                                      (afterFallbackCall fallback
                                         (snd (getFallbackProvider clk selected
                                            (afterFirstCall selected (snd (selectProvider clk request st)))))))),
                          (afterFallbackCall fallback
                             (snd (getFallbackProvider clk selected
                                (afterFirstCall selected (snd (selectProvider clk request st))))))
                            \<lparr>tick := tick (snd (getFallbackProvider clk selected
                                (afterFirstCall selected (snd (selectProvider clk request st))))) + 1\<rparr>)
                     | Inl err2 \<Rightarrow>
                         (Inl err2,
                          afterFallbackCall fallback
                            (snd (getFallbackProvider clk selected
                               (afterFirstCall selected (snd (selectProvider clk request st))))))))))"
  unfolding generate_def callProvider_eq afterFirstCall_def afterFallbackCall_def Let_def respond_def
  by (simp add: recordRequest_def countOf_def split: prod.splits option.splits sum.splits)

text \<open>The five ways through \<open>generate\<close>.\<close>

lemma generate_cases [case_names none first_ok no_fallback fallback_ok fallback_failed]:
  fixes clk getCredential request st
  defines "st1 \<equiv> snd (selectProvider clk request st)"
  obtains
    "fst (selectProvider clk request st) = None"
    "generate clk getCredential request st = (Inl NoProviderAvailable, st1)"
  | selected credential where
    "fst (selectProvider clk request st) = Some selected"
    "getCredential (name selected) = Inr credential"
    "fst (generate clk getCredential request st) =
       Inr (fst (respond clk selected (''[Response from '' @ name selected @ '']'')
                   (clk (tick st1)) (afterFirstCall selected st1)))"
    "snd (generate clk getCredential request st) =
       (afterFirstCall selected st1)\<lparr>tick := tick (afterFirstCall selected st1) + 1\<rparr>"
  | selected err where
    "fst (selectProvider clk request st) = Some selected"
    "getCredential (name selected) = Inl err"
    "fst (getFallbackProvider clk selected (afterFirstCall selected st1)) = None"
    "generate clk getCredential request st =
       (Inl err, snd (getFallbackProvider clk selected (afterFirstCall selected st1)))"
  | selected err fallback credential where
    "fst (selectProvider clk request st) = Some selected"
    "getCredential (name selected) = Inl err"
    "fst (getFallbackProvider clk selected (afterFirstCall selected st1)) = Some fallback"
    "getCredential (name fallback) = Inr credential"
    "fst (generate clk getCredential request st) =
       Inr (fst (respond clk fallback (''[Response from '' @ name fallback @ '']'')
                   (clk (tick st1))
                   (afterFallbackCall fallback
                      (snd (getFallbackProvider clk selected (afterFirstCall selected st1))))))"
    "snd (generate clk getCredential request st) =
       (afterFallbackCall fallback
          (snd (getFallbackProvider clk selected (afterFirstCall selected st1))))
         \<lparr>tick := tick (snd (getFallbackProvider clk selected (afterFirstCall selected st1))) + 1\<rparr>"
  | selected err fallback err2 where
    "fst (selectProvider clk request st) = Some selected"
    "getCredential (name selected) = Inl err"
    "fst (getFallbackProvider clk selected (afterFirstCall selected st1)) = Some fallback"
    "getCredential (name fallback) = Inl err2"
    "generate clk getCredential request st =
       (Inl err2,
        afterFallbackCall fallback
          (snd (getFallbackProvider clk selected (afterFirstCall selected st1))))"
proof (cases "fst (selectProvider clk request st)")
  case None
  then show ?thesis using that(1) by (simp add: generate_steps st1_def)
next
  case (Some selected)
  note sel = this
  show ?thesis
  proof (cases "getCredential (name selected)")
    case (Inr credential)
    with sel show ?thesis using that(2) [of selected credential]
      by (simp add: generate_steps st1_def)
  next
    case (Inl err)
    note failed = this
    show ?thesis
    proof (cases "fst (getFallbackProvider clk selected (afterFirstCall selected st1))")
      case None
      with sel failed show ?thesis using that(3) [of selected err]
        by (simp add: generate_steps st1_def)
    next
      case (Some fallback)
      note fb = this
      show ?thesis
      proof (cases "getCredential (name fallback)")
        case (Inr credential)
        with sel failed fb show ?thesis using that(4) [of selected err fallback credential]
          by (simp add: generate_steps st1_def)
      next
        case (Inl err2)
        with sel failed fb show ?thesis using that(5) [of selected err fallback err2]
          by (simp add: generate_steps st1_def)
      qed
    qed
  qed
qed

lemma afterFirstCall_frame:
  "providers (afterFirstCall p st) = providers st"
  "lastReset (afterFirstCall p st) = lastReset st"
  "callLog (afterFirstCall p st) = callLog st @ [name p]"
  "tick (afterFirstCall p st) = Suc (tick st)"
  by (simp_all add: afterFirstCall_def recordRequest_def)

lemma afterFirstCall_countOf:
  "countOf (afterFirstCall p st) k = (if k = name p then countOf st k + 1 else countOf st k)"
  by (simp add: afterFirstCall_def recordRequest_def countOf_def)

lemma afterFirstCall_requestCounts:
  "requestCounts (afterFirstCall p st) = (requestCounts st)(name p \<mapsto> countOf st (name p) + 1)"
  by (simp add: afterFirstCall_def recordRequest_def countOf_def)

lemma afterFallbackCall_frame:
  "providers (afterFallbackCall p st) = providers st"
  "lastReset (afterFallbackCall p st) = lastReset st"
  "requestCounts (afterFallbackCall p st) = requestCounts st"
  "callLog (afterFallbackCall p st) = callLog st @ [name p]"
  "tick (afterFallbackCall p st) = tick st"
  by (simp_all add: afterFallbackCall_def)

lemma getFallbackProvider_admissionOnly:
  "admissionOnly st (snd (getFallbackProvider clk current st))"
  by (simp add: getFallbackProvider_def Let_def firstWithinRateLimit_admissionOnly)

lemma preferredRule_noRollover:
  "noRollover clk st \<Longrightarrow> laterThan st (snd (preferredRule clk request st))"
  by (simp add: preferredRule_def isWithinRateLimit_noRollover laterThan_def split: option.splits)

lemma capabilityRule_noRollover:
  "noRollover clk st \<Longrightarrow> laterThan st (snd (capabilityRule clk request available st))"
  by (simp add: capabilityRule_def firstWithinRateLimit_noRollover split: option.splits)

lemma selectProvider_noRollover:
  assumes "noRollover clk st"
  shows "laterThan st (snd (selectProvider clk request st))"
proof -
  let ?s1 = "snd (preferredRule clk request st)"
  let ?s2 = "snd (capabilityRule clk request (getAvailableProviders st) ?s1)"
  let ?s3 = "snd (firstWithinRateLimit clk (\<lambda>_. True) (getAvailableProviders st) ?s2)"
  have 1: "laterThan st ?s1" using assms by (rule preferredRule_noRollover)
  have n1: "noRollover clk ?s1" using 1 assms by (rule laterThan_noRollover)
  have 2: "laterThan ?s1 ?s2" using n1 by (rule capabilityRule_noRollover)
  have n2: "noRollover clk ?s2" using 2 n1 by (rule laterThan_noRollover)
  have 3: "laterThan ?s2 ?s3" using n2 by (simp add: firstWithinRateLimit_noRollover)
  show ?thesis
    unfolding selectProvider_rules
    using 1 laterThan_trans [OF 1 2] laterThan_trans [OF laterThan_trans [OF 1 2] 3]
    by simp
qed

lemma getFallbackProvider_noRollover:
  "noRollover clk st \<Longrightarrow> laterThan st (snd (getFallbackProvider clk current st))"
  by (simp add: getFallbackProvider_def Let_def firstWithinRateLimit_noRollover)

section \<open>Counts while the window does not roll over\<close>

lemma noRollover_later:
  "noRollover clk st \<Longrightarrow> lastReset st' = lastReset st \<Longrightarrow> tick st \<le> tick st' \<Longrightarrow>
     noRollover clk st'"
  by (simp add: noRollover_def)

text \<open>While the window does not roll over, a whole \<open>generate\<close> changes the counts in one
  place: the selected provider's count goes up by one.\<close>

lemma generate_noRollover_counts:
  assumes nr: "noRollover clk st"
    and sel: "fst (selectProvider clk request st) = Some selected"
  shows "requestCounts (snd (generate clk getCredential request st))
           = (requestCounts st)(name selected \<mapsto> countOf st (name selected) + 1)"
    and "lastReset (snd (generate clk getCredential request st)) = lastReset st"
proof -
  let ?st1 = "snd (selectProvider clk request st)"
  let ?st4 = "afterFirstCall selected ?st1"
  let ?st5 = "snd (getFallbackProvider clk selected ?st4)"
  have l1: "laterThan st ?st1" using nr by (rule selectProvider_noRollover)
  have c1: "requestCounts ?st1 = requestCounts st" "lastReset ?st1 = lastReset st"
    "tick st \<le> tick ?st1"
    using l1 by (simp_all add: laterThan_def)
  have c4: "requestCounts ?st4 = (requestCounts st)(name selected \<mapsto> countOf st (name selected) + 1)"
    using c1 by (simp add: afterFirstCall_requestCounts countOf_def)
  have r4: "lastReset ?st4 = lastReset st" using c1 by (simp add: afterFirstCall_frame)
  have n4: "noRollover clk ?st4"
  proof (rule noRollover_later [OF nr])
    show "lastReset ?st4 = lastReset st" by (rule r4)
    show "tick st \<le> tick ?st4" using c1(3) by (simp add: afterFirstCall_frame)
  qed
  have l5: "laterThan ?st4 ?st5" using n4 by (rule getFallbackProvider_noRollover)
  have c5: "requestCounts ?st5 = requestCounts ?st4" "lastReset ?st5 = lastReset ?st4"
    using l5 by (simp_all add: laterThan_def)
  have "requestCounts (snd (generate clk getCredential request st))
           = (requestCounts st)(name selected \<mapsto> countOf st (name selected) + 1)
        \<and> lastReset (snd (generate clk getCredential request st)) = lastReset st"
  proof (cases rule: generate_cases [of clk request st getCredential])
    case none
    with sel show ?thesis by simp
  next
    case (first_ok s credential)
    with sel have "s = selected" by simp
    with first_ok(4) c4 r4 show ?thesis by simp
  next
    case (no_fallback s err)
    with sel have "s = selected" by simp
    with no_fallback(4) c4 r4 c5 show ?thesis by simp
  next
    case (fallback_ok s err fallback credential)
    with sel have "s = selected" by simp
    with fallback_ok(6) c4 r4 c5 show ?thesis by (simp add: afterFallbackCall_frame)
  next
    case (fallback_failed s err fallback err2)
    with sel have "s = selected" by simp
    with fallback_failed(5) c4 r4 c5 show ?thesis by (simp add: afterFallbackCall_frame)
  qed
  then show "requestCounts (snd (generate clk getCredential request st))
           = (requestCounts st)(name selected \<mapsto> countOf st (name selected) + 1)"
    and "lastReset (snd (generate clk getCredential request st)) = lastReset st"
    by simp_all
qed

lemma admissionOnly_countOf:
  "admissionOnly st st' \<Longrightarrow> countOf st' k = countOf st k \<or> countOf st' k = 0"
  unfolding admissionOnly_def
  by (auto simp: countOf_def resetCounts_def split: option.splits)

section \<open>Rules that do not apply, and the listing\<close>

lemma preferredRule_skipped:
  "preferredProvider request = None \<or> preferredProvider request = Some [] \<Longrightarrow>
     preferredRule clk request st = (None, st)"
  by (auto simp: preferredRule_def)

lemma capabilityRule_skipped:
  "requiredCapabilities request = None \<or> requiredCapabilities request = Some [] \<Longrightarrow>
     capabilityRule clk request available st = (None, st)"
  by (auto simp: capabilityRule_def)

lemma firstWithinRateLimit_Cons:
  "firstWithinRateLimit clk test (p # ps) st =
     (if test p
      then (if fst (isWithinRateLimit clk p st)
            then (Some p, snd (isWithinRateLimit clk p st))
            else firstWithinRateLimit clk test ps (snd (isWithinRateLimit clk p st)))
      else firstWithinRateLimit clk test ps st)"
proof (cases "isWithinRateLimit clk p st")
  case (Pair ok st')
  then show ?thesis by (cases ok) simp_all
qed

lemma sorted_getAvailableProviders:
  "sorted (map priority (getAvailableProviders st))"
  by (simp add: getAvailableProviders_def)

lemma hd_getAvailableProviders_least:
  assumes "q \<in> snd ` set (providers st)"
  shows "priority (hd (getAvailableProviders st)) \<le> priority q"
proof -
  have q: "q \<in> set (getAvailableProviders st)" using assms by simp
  then obtain p ps where ps: "getAvailableProviders st = p # ps"
    by (cases "getAvailableProviders st") auto
  have "sorted (map priority (p # ps))"
    using sorted_getAvailableProviders [of st] ps by simp
  then have "\<forall>r \<in> set ps. priority p \<le> priority r" by simp
  with q ps show ?thesis by auto
qed

section \<open>The capability loop\<close>

lemma preferredUnavailable_iff:
  "preferredUnavailable clk request st \<longleftrightarrow> fst (preferredRule clk request st) = None"
  by (simp add: preferredUnavailable_def preferredRule_def split: option.splits)

lemma admissionOnly_below:
  assumes "admissionOnly st st'" and "countOf st k < limit" and "0 < limit"
  shows "countOf st' k < limit"
  using admissionOnly_countOf [OF assms(1), of k] assms(2,3) by auto

text \<open>A provider that passes the test, has a positive limit and is below it when the loop
  starts is not passed over: the loop returns it or a provider before it.\<close>

lemma firstWithinRateLimit_finds:
  assumes "w \<in> set ps" and "test w"
    and "countOf st (name w) < rateLimit w" and "0 < rateLimit w"
    and "sorted (map priority ps)"
  shows "\<exists>q. fst (firstWithinRateLimit clk test ps st) = Some q \<and> q \<in> set ps \<and> test q \<and>
             priority q \<le> priority w"
  using assms
proof (induction ps arbitrary: st)
  case Nil
  then show ?case by simp
next
  case (Cons p ps)
  have head: "priority p \<le> priority w"
    using Cons.prems(1,5) by auto
  have tail: "sorted (map priority ps)"
    using Cons.prems(5) by simp
  show ?case
  proof (cases "test p")
    case False
    with Cons.prems(1,2) have "w \<in> set ps" by auto
    from Cons.IH [OF this Cons.prems(2,3,4) tail] False
    show ?thesis by auto
  next
    case True
    let ?st' = "snd (isWithinRateLimit clk p st)"
    have a: "admissionOnly st ?st'" by (rule isWithinRateLimit_admissionOnly)
    have below: "countOf ?st' (name w) < rateLimit w"
      using a Cons.prems(3,4) by (rule admissionOnly_below)
    show ?thesis
    proof (cases "fst (isWithinRateLimit clk p st)")
      case True
      with \<open>test p\<close> head show ?thesis
        by (simp add: firstWithinRateLimit_Cons del: firstWithinRateLimit.simps)
    next
      case False
      then have "\<not> countOf ?st' (name p) < rateLimit p"
        by (simp add: isWithinRateLimit_result)
      with below have "w \<noteq> p" by auto
      with Cons.prems(1) have "w \<in> set ps" by simp
      from Cons.IH [OF this Cons.prems(2) below Cons.prems(4) tail] False \<open>test p\<close>
      show ?thesis
        by (auto simp: firstWithinRateLimit_Cons simp del: firstWithinRateLimit.simps)
    qed
  qed
qed

section \<open>The position of the fallback in the listing\<close>

lemma findIndex_hit:
  "i < length xs \<Longrightarrow> test (xs ! i) \<Longrightarrow> (\<forall>j < i. \<not> test (xs ! j)) \<Longrightarrow> findIndex test xs = int i"
proof (induction xs arbitrary: i)
  case Nil
  then show ?case by simp
next
  case (Cons x xs)
  show ?case
  proof (cases i)
    case 0
    with Cons.prems show ?thesis by simp
  next
    case (Suc k)
    have "\<not> test x" using Cons.prems(3) Suc by auto
    moreover have "findIndex test xs = int k"
    proof (rule Cons.IH)
      show "k < length xs" using Cons.prems(1) Suc by simp
      show "test (xs ! k)" using Cons.prems(2) Suc by simp
      show "\<forall>j < k. \<not> test (xs ! j)"
      proof (intro allI impI)
        fix j assume "j < k"
        then have "Suc j < i" using Suc by simp
        then have "\<not> test ((x # xs) ! Suc j)" using Cons.prems(3) by blast
        then show "\<not> test (xs ! j)" by simp
      qed
    qed
    ultimately show ?thesis using Suc by (simp add: Let_def)
  qed
qed

lemma findIndex_distinct:
  assumes "distinct (map f xs)" and "i < length xs"
  shows "findIndex (\<lambda>y. f y = f (xs ! i)) xs = int i"
proof (rule findIndex_hit [OF assms(2)])
  show "f (xs ! i) = f (xs ! i)" by simp
  show "\<forall>j < i. f (xs ! j) \<noteq> f (xs ! i)"
  proof (intro allI impI)
    fix j assume "j < i"
    then have "j < length xs" "j \<noteq> i" using assms(2) by simp_all
    then have "map f xs ! j \<noteq> map f xs ! i"
      using assms by (simp add: nth_eq_iff_index_eq del: nth_map)
    then show "f (xs ! j) \<noteq> f (xs ! i)"
      using \<open>j < length xs\<close> assms(2) by simp
  qed
qed

lemma wellFormed_names:
  assumes "wellFormed st"
  shows "map name (map snd (providers st)) = map fst (providers st)"
  using assms unfolding wellFormed_def
  by (induction "providers st" arbitrary: st) (auto simp: list_all_iff)

lemma wellFormed_distinct_names:
  assumes "wellFormed st"
  shows "distinct (map name (getAvailableProviders st))"
proof -
  have "mset (getAvailableProviders st) = mset (map snd (providers st))"
    by (simp add: getAvailableProviders_def)
  then have "mset (map name (getAvailableProviders st)) = mset (map name (map snd (providers st)))"
    by (simp only: mset_map)
  then have "distinct (map name (getAvailableProviders st))
               \<longleftrightarrow> distinct (map name (map snd (providers st)))"
    by (rule mset_eq_imp_distinct_iff)
  moreover have "distinct (map name (map snd (providers st)))"
    using assms by (simp only: wellFormed_names [OF assms] wellFormed_def)
  ultimately show ?thesis by blast
qed

lemma getFallbackProvider_later:
  assumes "fst (getFallbackProvider clk current st) = Some fb"
  shows "\<exists>j. findIndex (\<lambda>p. name p = name current) (getAvailableProviders st) < int j \<and>
             j < length (getAvailableProviders st) \<and> getAvailableProviders st ! j = fb"
proof -
  let ?available = "getAvailableProviders st"
  let ?i = "findIndex (\<lambda>p. name p = name current) ?available"
  have "fb \<in> set (drop (nat (?i + 1)) ?available)"
    using assms firstWithinRateLimit_Some [of clk "\<lambda>_. True" "drop (nat (?i + 1)) ?available" st fb]
    by (simp add: getFallbackProvider_def Let_def)
  then obtain k where k: "k < length (drop (nat (?i + 1)) ?available)"
    "drop (nat (?i + 1)) ?available ! k = fb"
    by (auto simp: in_set_conv_nth)
  define j where "j = nat (?i + 1) + k"
  have j: "nat (?i + 1) \<le> j" "j < length ?available" "?available ! j = fb"
    using k by (auto simp: j_def)
  have "?i < int j" using j(1) by linarith
  with j show ?thesis by blast
qed

lemma getFallbackProvider_of_last:
  assumes "wellFormed st" and "providers st \<noteq> []"
    and "current = last (getAvailableProviders st)"
  shows "getFallbackProvider clk current st = (None, st)"
proof -
  let ?available = "getAvailableProviders st"
  have ne: "?available \<noteq> []"
    using assms(2) by (metis length_getAvailableProviders length_0_conv)
  then have len: "length ?available - 1 < length ?available"
    by (cases ?available) simp_all
  from ne have cur: "current = ?available ! (length ?available - 1)"
    using assms(3) by (simp add: last_conv_nth)
  have "findIndex (\<lambda>p. name p = name (?available ! (length ?available - 1))) ?available
          = int (length ?available - 1)"
    using wellFormed_distinct_names [OF assms(1)] len
    by (rule findIndex_distinct)
  then have "nat (findIndex (\<lambda>p. name p = name current) ?available + 1) = length ?available"
    using cur len by simp
  then show ?thesis
    by (simp add: getFallbackProvider_def Let_def)
qed

lemma wellFormed_cong: "providers st' = providers st \<Longrightarrow> wellFormed st' = wellFormed st"
  by (simp add: wellFormed_def)

lemma selectProvider_frame:
  "providers (snd (selectProvider clk request st)) = providers st"
  "callLog (snd (selectProvider clk request st)) = callLog st"
  using selectProvider_admissionOnly [of st clk request] by (simp_all add: admissionOnly_def)

section \<open>What selection and fallback return\<close>

lemma preferredRule_Some:
  assumes "fst (preferredRule clk request st) = Some q"
  shows "q \<in> snd ` set (providers st)"
    and "countOf (snd (preferredRule clk request st)) (name q) < rateLimit q"
proof -
  obtain n where n: "preferredProvider request = Some n" "n \<noteq> []"
    "map_of (providers st) n = Some q" "fst (isWithinRateLimit clk q st)"
    using assms
    by (auto simp: preferredRule_def split: option.splits if_splits)
  then have st1: "snd (preferredRule clk request st) = snd (isWithinRateLimit clk q st)"
    by (simp add: preferredRule_def)
  have "(n, q) \<in> set (providers st)" using n(3) by (rule map_of_SomeD)
  then show "q \<in> snd ` set (providers st)" by force
  show "countOf (snd (preferredRule clk request st)) (name q) < rateLimit q"
    using n(4) by (simp add: st1 isWithinRateLimit_result [symmetric])
qed

lemma capabilityRule_Some:
  assumes "fst (capabilityRule clk request available st) = Some q"
  shows "q \<in> set available"
    and "countOf (snd (capabilityRule clk request available st)) (name q) < rateLimit q"
proof -
  obtain required where r: "requiredCapabilities request = Some required" "required \<noteq> []"
    using assms by (auto simp: capabilityRule_def split: option.splits if_splits)
  then have eq: "capabilityRule clk request available st
                   = firstWithinRateLimit clk (hasAllCapabilities required) available st"
    by (simp add: capabilityRule_def)
  show "q \<in> set available"
    and "countOf (snd (capabilityRule clk request available st)) (name q) < rateLimit q"
    using firstWithinRateLimit_Some [of clk "hasAllCapabilities required" available st q] assms
    by (simp_all add: eq)
qed

text \<open>What \<open>selectProvider\<close> returns is an enabled provider that is below its limit in the
  state \<open>selectProvider\<close> ends in.\<close>

lemma selectProvider_Some:
  assumes "fst (selectProvider clk request st) = Some q"
  shows "q \<in> snd ` set (providers st)"
    and "countOf (snd (selectProvider clk request st)) (name q) < rateLimit q"
proof -
  let ?available = "getAvailableProviders st"
  let ?st1 = "snd (preferredRule clk request st)"
  let ?st2 = "snd (capabilityRule clk request ?available ?st1)"
  have enabled: "providers st \<noteq> []"
    using assms by (auto simp: selectProvider_rules)
  have "q \<in> snd ` set (providers st) \<and>
        countOf (snd (selectProvider clk request st)) (name q) < rateLimit q"
  proof (cases "fst (preferredRule clk request st)")
    case (Some p)
    then have "selectProvider clk request st = preferredRule clk request st"
      using enabled by (simp add: selectProvider_rules)
    then show ?thesis
      using assms preferredRule_Some [of clk request st q] by simp
  next
    case None
    note miss = this
    show ?thesis
    proof (cases "fst (capabilityRule clk request ?available ?st1)")
      case (Some p)
      then have "selectProvider clk request st = capabilityRule clk request ?available ?st1"
        using enabled miss by (simp add: selectProvider_rules)
      then show ?thesis
        using assms capabilityRule_Some [of clk request ?available ?st1 q] by simp
    next
      case None
      then have "selectProvider clk request st
                   = firstWithinRateLimit clk (\<lambda>_. True) ?available ?st2"
        using enabled miss by (simp add: selectProvider_rules)
      then show ?thesis
        using assms firstWithinRateLimit_Some [of clk "\<lambda>_. True" ?available ?st2 q] by simp
    qed
  qed
  then show "q \<in> snd ` set (providers st)"
    and "countOf (snd (selectProvider clk request st)) (name q) < rateLimit q"
    by simp_all
qed

text \<open>In a well-formed registry the fallback for an enabled provider is another enabled
  provider.\<close>

lemma getFallbackProvider_other:
  assumes "wellFormed st" and "current \<in> snd ` set (providers st)"
    and "fst (getFallbackProvider clk current st) = Some fb"
  shows "name fb \<noteq> name current" and "fb \<in> snd ` set (providers st)"
proof -
  let ?available = "getAvailableProviders st"
  have d: "distinct (map name ?available)"
    using assms(1) by (rule wellFormed_distinct_names)
  obtain i where i: "i < length ?available" "?available ! i = current"
    using assms(2) by (auto simp: in_set_conv_nth simp flip: set_getAvailableProviders)
  have idx: "findIndex (\<lambda>p. name p = name current) ?available = int i"
    using findIndex_distinct [OF d i(1)] i(2) by simp
  obtain j where j: "findIndex (\<lambda>p. name p = name current) ?available < int j"
    "j < length ?available" "?available ! j = fb"
    using getFallbackProvider_later [OF assms(3)] by blast
  have "i \<noteq> j" using idx j(1) by simp
  then have "map name ?available ! i \<noteq> map name ?available ! j"
    using d i(1) j(2) by (simp add: nth_eq_iff_index_eq del: nth_map)
  then show "name fb \<noteq> name current"
    using i j by auto
  show "fb \<in> snd ` set (providers st)"
    using j(2,3) set_getAvailableProviders [of st] nth_mem [of j ?available] by simp
qed

lemma getFallbackProvider_frame:
  "providers (snd (getFallbackProvider clk current st)) = providers st"
  "callLog (snd (getFallbackProvider clk current st)) = callLog st"
  using getFallbackProvider_admissionOnly [of st clk current] by (simp_all add: admissionOnly_def)

text \<open>The calls that one \<open>generate\<close> adds to the log, by the way it took.\<close>

lemma generate_callLog:
  "fst (selectProvider clk request st) = None \<Longrightarrow>
     callLog (snd (generate clk getCredential request st)) = callLog st"
  "fst (selectProvider clk request st) = Some selected \<Longrightarrow>
   getCredential (name selected) = Inr credential \<Longrightarrow>
     callLog (snd (generate clk getCredential request st)) = callLog st @ [name selected]"
  "fst (selectProvider clk request st) = Some selected \<Longrightarrow>
   getCredential (name selected) = Inl err \<Longrightarrow>
   fst (getFallbackProvider clk selected
          (afterFirstCall selected (snd (selectProvider clk request st)))) = None \<Longrightarrow>
     callLog (snd (generate clk getCredential request st)) = callLog st @ [name selected]"
  "fst (selectProvider clk request st) = Some selected \<Longrightarrow>
   getCredential (name selected) = Inl err \<Longrightarrow>
   fst (getFallbackProvider clk selected
          (afterFirstCall selected (snd (selectProvider clk request st)))) = Some fallback \<Longrightarrow>
     callLog (snd (generate clk getCredential request st))
       = callLog st @ [name selected, name fallback]"
  by (simp_all add: generate_steps afterFirstCall_frame afterFallbackCall_frame
        getFallbackProvider_frame selectProvider_frame split: sum.splits)

text \<open>The counts after a \<open>generate\<close> that selected a provider are the counts after the
  first call, up to window resets by the admission checks of \<open>getFallbackProvider\<close>.\<close>

lemma generate_counts_after_selection:
  assumes "fst (selectProvider clk request st) = Some selected"
  shows "admissionOnly (afterFirstCall selected (snd (selectProvider clk request st)))
           ((snd (generate clk getCredential request st))
              \<lparr>callLog := callLog (afterFirstCall selected (snd (selectProvider clk request st)))\<rparr>)"
proof -
  let ?st4 = "afterFirstCall selected (snd (selectProvider clk request st))"
  let ?st5 = "snd (getFallbackProvider clk selected ?st4)"
  have a5: "admissionOnly ?st4 ?st5" by (rule getFallbackProvider_admissionOnly)
  show ?thesis
  proof (cases rule: generate_cases [of clk request st getCredential])
    case none
    with assms show ?thesis by simp
  next
    case (first_ok s credential)
    from first_ok(1) assms have "s = selected" by simp
    with first_ok(4) show ?thesis by (simp add: admissionOnly_def)
  next
    case (no_fallback s err)
    from no_fallback(1) assms have "s = selected" by simp
    with no_fallback(4) a5 show ?thesis by (simp add: admissionOnly_def)
  next
    case (fallback_ok s err fallback credential)
    from fallback_ok(1) assms have "s = selected" by simp
    with fallback_ok(6) a5 show ?thesis
      by (simp add: admissionOnly_def afterFallbackCall_def)
  next
    case (fallback_failed s err fallback err2)
    from fallback_failed(1) assms have "s = selected" by simp
    with fallback_failed(5) a5 show ?thesis
      by (simp add: admissionOnly_def afterFallbackCall_def)
  qed
qed

section \<open>Dispatch when every call fails\<close>

lemma selectProvider_default:
  assumes "preferredProvider request = None \<or> preferredProvider request = Some []"
    and "requiredCapabilities request = None \<or> requiredCapabilities request = Some []"
    and "getAvailableProviders st = p # ps"
    and "fst (isWithinRateLimit clk p st)"
  shows "selectProvider clk request st = (Some p, snd (isWithinRateLimit clk p st))"
proof -
  have "providers st \<noteq> []"
    using assms(3) length_getAvailableProviders [of st] by auto
  moreover have "preferredRule clk request st = (None, st)"
    using assms(1) by (rule preferredRule_skipped)
  moreover have "capabilityRule clk request (getAvailableProviders st) st = (None, st)"
    using assms(2) by (rule capabilityRule_skipped)
  moreover have "firstWithinRateLimit clk (\<lambda>_. True) (p # ps) st
                   = (Some p, snd (isWithinRateLimit clk p st))"
    using assms(4) by (simp add: firstWithinRateLimit_Cons del: firstWithinRateLimit.simps)
  ultimately show ?thesis
    using assms(3) by (simp add: selectProvider_rules)
qed

lemma getFallbackProvider_of_head:
  assumes "getAvailableProviders st = p # q # ps"
    and "fst (isWithinRateLimit clk q st)"
  shows "fst (getFallbackProvider clk p st) = Some q"
  using assms
  by (simp add: getFallbackProvider_def Let_def firstWithinRateLimit_Cons
           del: firstWithinRateLimit.simps)

text \<open>A provider with a positive limit and a count below it passes its admission check
  whether or not the check resets the window.\<close>

lemma isWithinRateLimit_robust:
  assumes "countOf st (name p) < rateLimit p" and "0 < rateLimit p"
  shows "fst (isWithinRateLimit clk p st)"
proof -
  have "countOf (snd (isWithinRateLimit clk p st)) (name p) = countOf st (name p) \<or>
        countOf (snd (isWithinRateLimit clk p st)) (name p) = 0"
    using isWithinRateLimit_admissionOnly by (rule admissionOnly_countOf)
  then show ?thesis
    using assms by (auto simp: isWithinRateLimit_result)
qed

lemma wellFormed_name_enabled:
  assumes "wellFormed st" and "p \<in> snd ` set (providers st)"
  shows "name p \<in> fst ` set (providers st)"
proof -
  obtain k where k: "(k, p) \<in> set (providers st)" using assms(2) by auto
  then have "name p = k"
    using assms(1) by (auto simp: wellFormed_def list_all_iff)
  with k show ?thesis by force
qed

lemma distinct_names_length:
  assumes "distinct ns" and "set ns \<subseteq> fst ` set kvs"
  shows "length ns \<le> length kvs"
proof -
  have "length ns = card (set ns)" using assms(1) by (simp add: distinct_card)
  also have "\<dots> \<le> card (fst ` set kvs)" using assms(2) by (simp add: card_mono)
  also have "\<dots> \<le> card (set kvs)" by (simp add: card_image_le)
  also have "\<dots> \<le> length kvs" by (rule card_length)
  finally show ?thesis .
qed

text \<open>The state in which \<open>generate\<close> calls \<open>getFallbackProvider\<close>, written with
  the functions of the source.\<close>

lemma afterFirstCall_eq:
  "snd (callProvider getCredential selected request
          (recordRequest selected (st1\<lparr>tick := tick st1 + 1\<rparr>)))
     = afterFirstCall selected st1"
  by (simp add: callProvider_eq afterFirstCall_def recordRequest_def)

text \<open>When every call fails, \<open>generate\<close> throws after calling at most two providers,
  which are enabled and different: the selected provider and then its fallback.  What
  it throws is the failure of the last call, or \<open>No LLM provider available\<close> when
  nothing was selected.\<close>

lemma generate_all_fail_outcome:
  assumes wf: "wellFormed st" and fail: "\<forall>n. \<exists>e. getCredential n = Inl e"
  shows "\<exists>attempts e.
           callLog (snd (generate clk getCredential request st)) = callLog st @ attempts \<and>
           fst (generate clk getCredential request st) = Inl e \<and>
           length attempts \<le> 2 \<and> distinct attempts \<and>
           set attempts \<subseteq> fst ` set (providers st) \<and>
           (case fst (selectProvider clk request st) of
              None \<Rightarrow> attempts = [] \<and> e = NoProviderAvailable
            | Some selected \<Rightarrow>
                (case fst (getFallbackProvider clk selected
                             (afterFirstCall selected (snd (selectProvider clk request st)))) of
                   None \<Rightarrow> attempts = [name selected] \<and> getCredential (name selected) = Inl e
                 | Some fallback \<Rightarrow>
                     attempts = [name selected, name fallback] \<and>
                     getCredential (name fallback) = Inl e))"
proof (cases rule: generate_cases [of clk request st getCredential])
  case none
  then show ?thesis by (simp add: selectProvider_frame)
next
  case (first_ok selected credential)
  with fail show ?thesis by (metis sum.distinct(1))
next
  case (no_fallback selected err)
  have "callLog (snd (generate clk getCredential request st)) = callLog st @ [name selected]"
    using no_fallback(1,2,3) by (rule generate_callLog(3))
  moreover have "name selected \<in> fst ` set (providers st)"
    using wf selectProvider_Some(1) [OF no_fallback(1)] by (rule wellFormed_name_enabled)
  ultimately show ?thesis
    using no_fallback by (intro exI [of _ "[name selected]"] exI [of _ err]) simp
next
  case (fallback_ok selected err fallback credential)
  with fail show ?thesis by (metis sum.distinct(1))
next
  case (fallback_failed selected err fallback err2)
  let ?st4 = "afterFirstCall selected (snd (selectProvider clk request st))"
  have p4: "providers ?st4 = providers st"
    by (simp add: afterFirstCall_frame selectProvider_frame)
  have wf4: "wellFormed ?st4" using wf wellFormed_cong [OF p4] by simp
  have sel: "selected \<in> snd ` set (providers st)"
    using fallback_failed(1) by (rule selectProvider_Some(1))
  then have sel4: "selected \<in> snd ` set (providers ?st4)" using p4 by simp
  have other: "name fallback \<noteq> name selected" "fallback \<in> snd ` set (providers ?st4)"
    using getFallbackProvider_other [OF wf4 sel4 fallback_failed(3)] by simp_all
  have names: "name selected \<in> fst ` set (providers st)" "name fallback \<in> fst ` set (providers st)"
    using wellFormed_name_enabled [OF wf sel] wellFormed_name_enabled [OF wf4 other(2)] p4
    by simp_all
  have "callLog (snd (generate clk getCredential request st))
          = callLog st @ [name selected, name fallback]"
    using fallback_failed(1,2,3) by (rule generate_callLog(4))
  then show ?thesis
    using fallback_failed other(1) names
    by (intro exI [of _ "[name selected, name fallback]"] exI [of _ err2]) auto
qed

text \<open>With a plain request, two or more enabled providers, all below a positive limit,
  and every call failing, the two calls go to the first two providers of the listing.\<close>

lemma generate_all_fail_two:
  assumes wf: "wellFormed st" and fail: "\<forall>n. \<exists>e. getCredential n = Inl e"
    and plain: "preferredProvider request = None \<or> preferredProvider request = Some []"
      "requiredCapabilities request = None \<or> requiredCapabilities request = Some []"
    and two: "2 \<le> length (providers st)"
    and idle: "\<forall>p \<in> snd ` set (providers st). countOf st (name p) < rateLimit p \<and> 0 < rateLimit p"
  shows "callLog (snd (generate clk getCredential request st))
           = callLog st @ map name (take 2 (getAvailableProviders st))"
proof -
  let ?available = "getAvailableProviders st"
  have "2 \<le> length ?available" using two by simp
  then obtain p q ps where av: "?available = p # q # ps"
    by (cases ?available; cases "tl ?available") auto
  have mem: "p \<in> snd ` set (providers st)" "q \<in> snd ` set (providers st)"
    using set_getAvailableProviders [of st] av by auto
  have "distinct (map name ?available)" using wf by (rule wellFormed_distinct_names)
  then have differ: "name q \<noteq> name p" using av by auto
  let ?st1 = "snd (isWithinRateLimit clk p st)"
  have "fst (isWithinRateLimit clk p st)"
    using idle mem(1) by (intro isWithinRateLimit_robust) auto
  then have sel: "selectProvider clk request st = (Some p, ?st1)"
    using plain av by (intro selectProvider_default)
  let ?st4 = "afterFirstCall p ?st1"
  have p4: "providers ?st4 = providers st"
    by (simp add: afterFirstCall_frame isWithinRateLimit_frame)
  have "countOf ?st1 (name q) = countOf st (name q) \<or> countOf ?st1 (name q) = 0"
    using isWithinRateLimit_admissionOnly by (rule admissionOnly_countOf)
  moreover have "countOf ?st4 (name q) = countOf ?st1 (name q)"
    using differ by (simp add: afterFirstCall_countOf)
  ultimately have "countOf ?st4 (name q) < rateLimit q"
    using idle mem(2) by auto
  moreover have "0 < rateLimit q" using idle mem(2) by auto
  ultimately have "fst (isWithinRateLimit clk q ?st4)"
    by (rule isWithinRateLimit_robust)
  moreover have "getAvailableProviders ?st4 = p # q # ps"
    using getAvailableProviders_cong [OF p4] av by simp
  ultimately have fb: "fst (getFallbackProvider clk p ?st4) = Some q"
    by (intro getFallbackProvider_of_head)
  obtain err where err: "getCredential (name p) = Inl err" using fail by blast
  have "callLog (snd (generate clk getCredential request st)) = callLog st @ [name p, name q]"
  proof (rule generate_callLog(4))
    show "fst (selectProvider clk request st) = Some p" using sel by simp
    show "getCredential (name p) = Inl err" by (rule err)
    show "fst (getFallbackProvider clk p (afterFirstCall p (snd (selectProvider clk request st))))
            = Some q"
      using fb sel by simp
  qed
  then show ?thesis using av by simp
qed

section \<open>Invariants of the registry\<close>

lemma map_set_keys:
  "map fst (map_set k v kvs) = (if k \<in> fst ` set kvs then map fst kvs else map fst kvs @ [k])"
  by (induction kvs) (auto split: if_splits)

lemma map_set_entries: "set (map_set k v kvs) \<subseteq> insert (k, v) (set kvs)"
  by (induction kvs) (auto split: if_splits)

text \<open>What the loop of \<open>initializeProviders\<close> maintains: a well-formed registry of
  providers with limits that are not negative, and no request counted.\<close>

lemma initializeProviders_invariant:
  assumes "list_all (\<lambda>p. 0 \<le> rateLimit p) configs"
    and "wellFormed st" and "list_all (\<lambda>(k, p). 0 \<le> rateLimit p) (providers st)"
    and "\<forall>k. countOf st k = 0"
  shows "wellFormed (initializeProviders isConfigured configs st) \<and>
         list_all (\<lambda>(k, p). 0 \<le> rateLimit p) (providers (initializeProviders isConfigured configs st)) \<and>
         (\<forall>k. countOf (initializeProviders isConfigured configs st) k = 0)"
  using assms
proof (induction configs arbitrary: st)
  case Nil
  then show ?case by simp
next
  case (Cons config configs)
  show ?case
  proof (cases "isConfigured (name config) \<or> name config = ''Ollama''")
    case False
    then show ?thesis using Cons by simp
  next
    case True
    let ?st' = "st\<lparr>providers := map_set (name config) config (providers st),
                   requestCounts := (requestCounts st)(name config \<mapsto> 0)\<rparr>"
    have entries: "set (providers ?st') \<subseteq> insert (name config, config) (set (providers st))"
      using map_set_entries [of "name config" config "providers st"] by simp
    have "distinct (map fst (providers ?st'))"
      using Cons.prems(2) by (auto simp: wellFormed_def map_set_keys)
    moreover have "list_all (\<lambda>(k, p). name p = k) (providers ?st')"
      using Cons.prems(2) entries by (auto simp: wellFormed_def list_all_iff)
    ultimately have wf: "wellFormed ?st'" by (simp add: wellFormed_def)
    have limits: "list_all (\<lambda>(k, p). 0 \<le> rateLimit p) (providers ?st')"
      using Cons.prems(1,3) entries by (auto simp: list_all_iff)
    have zero: "\<forall>k. countOf ?st' k = 0"
      using Cons.prems(4) by (auto simp: countOf_def split: option.splits)
    have rest: "list_all (\<lambda>p. 0 \<le> rateLimit p) configs"
      using Cons.prems(1) by simp
    show ?thesis
      using True Cons.IH [OF rest wf limits zero] by simp
  qed
qed

lemma newOrchestrator_invariant:
  "wellFormed (newOrchestrator clk isConfigured) \<and>
   countsWithinLimits (newOrchestrator clk isConfigured)"
proof -
  let ?st0 = "\<lparr>providers = [], requestCounts = Map.empty, lastReset = clk 0, tick = 1,
               callLog = []\<rparr>"
  have catalog: "list_all (\<lambda>p. 0 \<le> rateLimit p) providerConfigs"
    by (simp add: providerConfigs_def)
  have "wellFormed ?st0" by (simp add: wellFormed_def)
  moreover have "list_all (\<lambda>(k, p). 0 \<le> rateLimit p) (providers ?st0)" by simp
  moreover have "\<forall>k. countOf ?st0 k = 0" by (simp add: countOf_def)
  ultimately have inv:
    "wellFormed (initializeProviders isConfigured providerConfigs ?st0) \<and>
     list_all (\<lambda>(k, p). 0 \<le> rateLimit p)
       (providers (initializeProviders isConfigured providerConfigs ?st0)) \<and>
     (\<forall>k. countOf (initializeProviders isConfigured providerConfigs ?st0) k = 0)"
    using catalog by (intro initializeProviders_invariant)
  then show ?thesis
    by (auto simp: newOrchestrator_def countsWithinLimits_def list_all_iff)
qed

lemma admissionOnly_countsWithinLimits:
  assumes "admissionOnly st st'" and "countsWithinLimits st"
  shows "countsWithinLimits st'"
proof -
  have p: "providers st' = providers st" using assms(1) by (simp add: admissionOnly_def)
  have "0 \<le> countOf st' k \<and> countOf st' k \<le> rateLimit q" if "(k, q) \<in> set (providers st)" for k q
  proof -
    have "0 \<le> countOf st k \<and> countOf st k \<le> rateLimit q"
      using assms(2) that by (auto simp: countsWithinLimits_def list_all_iff)
    moreover have "countOf st' k = countOf st k \<or> countOf st' k = 0"
      using assms(1) by (rule admissionOnly_countOf)
    ultimately show ?thesis by auto
  qed
  then show ?thesis
    by (auto simp: countsWithinLimits_def list_all_iff p)
qed

lemma selectProvider_countsWithinLimits:
  "countsWithinLimits st \<Longrightarrow> countsWithinLimits (snd (selectProvider clk request st))"
  using selectProvider_admissionOnly by (rule admissionOnly_countsWithinLimits)

text \<open>Recording the request keeps the selected provider within its limit, because it was
  below the limit when \<open>selectProvider\<close> returned it.\<close>

lemma afterFirstCall_countsWithinLimits:
  assumes wf: "wellFormed st" and inv: "countsWithinLimits st"
    and sel: "fst (selectProvider clk request st) = Some selected"
  shows "countsWithinLimits (afterFirstCall selected (snd (selectProvider clk request st)))"
proof -
  let ?st1 = "snd (selectProvider clk request st)"
  let ?st4 = "afterFirstCall selected ?st1"
  have p1: "providers ?st1 = providers st" by (rule selectProvider_frame)
  have inv1: "countsWithinLimits ?st1" using inv by (rule selectProvider_countsWithinLimits)
  have below: "countOf ?st1 (name selected) < rateLimit selected"
    using sel by (rule selectProvider_Some(2))
  obtain k0 where k0: "(k0, selected) \<in> set (providers st)"
    using selectProvider_Some(1) [OF sel] by auto
  then have key: "k0 = name selected"
    using wf by (auto simp: wellFormed_def list_all_iff)
  have "0 \<le> countOf ?st4 k \<and> countOf ?st4 k \<le> rateLimit q"
    if kq: "(k, q) \<in> set (providers st)" for k q
  proof -
    have old: "0 \<le> countOf ?st1 k \<and> countOf ?st1 k \<le> rateLimit q"
      using inv1 kq p1 by (auto simp: countsWithinLimits_def list_all_iff)
    show ?thesis
    proof (cases "k = name selected")
      case False
      then show ?thesis using old by (simp add: afterFirstCall_countOf)
    next
      case True
      have "distinct (map fst (providers st))" using wf by (simp add: wellFormed_def)
      then have "q = selected"
        using kq k0 key True by (metis eq_key_imp_eq_value)
      then show ?thesis using old below True by (simp add: afterFirstCall_countOf)
    qed
  qed
  then show ?thesis
    by (auto simp: countsWithinLimits_def list_all_iff afterFirstCall_frame p1)
qed

lemma generate_countsWithinLimits:
  assumes wf: "wellFormed st" and inv: "countsWithinLimits st"
  shows "countsWithinLimits (snd (generate clk getCredential request st))"
proof (cases "fst (selectProvider clk request st)")
  case None
  then have "snd (generate clk getCredential request st) = snd (selectProvider clk request st)"
    by (simp add: generate_steps)
  then show ?thesis using inv by (simp add: selectProvider_countsWithinLimits)
next
  case (Some selected)
  let ?st4 = "afterFirstCall selected (snd (selectProvider clk request st))"
  let ?st' = "snd (generate clk getCredential request st)"
  have "countsWithinLimits ?st4"
    using wf inv Some by (rule afterFirstCall_countsWithinLimits)
  moreover have "admissionOnly ?st4 (?st'\<lparr>callLog := callLog ?st4\<rparr>)"
    using Some by (rule generate_counts_after_selection)
  ultimately have "countsWithinLimits (?st'\<lparr>callLog := callLog ?st4\<rparr>)"
    by (rule admissionOnly_countsWithinLimits [rotated])
  then show ?thesis
    by (simp add: countsWithinLimits_def countOf_def)
qed

lemma generate_frame:
  "providers (snd (generate clk getCredential request st)) = providers st"
  by (simp add: generate_steps afterFirstCall_frame afterFallbackCall_frame
        getFallbackProvider_frame selectProvider_frame split: option.splits sum.splits)

lemma reachable_invariant:
  "reachable clk st \<Longrightarrow> wellFormed st \<and> countsWithinLimits st"
proof (induction rule: reachable.induct)
  case (constructed isConfigured)
  show ?case by (rule newOrchestrator_invariant)
next
  case (selected st request)
  then show ?case
    using wellFormed_cong [OF selectProvider_frame(1), of clk request st]
    by (simp add: selectProvider_countsWithinLimits)
next
  case (generated st getCredential request)
  then show ?case
    using wellFormed_cong [OF generate_frame, of clk getCredential request st]
    by (simp add: generate_countsWithinLimits)
qed

section \<open>Counts within one window\<close>

lemma countsGrow_refl: "countsGrow st st"
  by (simp add: countsGrow_def)

lemma countsGrow_trans:
  assumes "countsGrow a b" and "countsGrow b c"
  shows "countsGrow a c"
proof -
  have order: "lastReset a \<le> lastReset b" "lastReset b \<le> lastReset c"
    using assms by (simp_all add: countsGrow_def)
  have "countOf a k \<le> countOf c k" if same: "lastReset c = lastReset a" for k
  proof -
    have "lastReset b = lastReset a" "lastReset c = lastReset b"
      using order same by simp_all
    then have "countOf a k \<le> countOf b k" "countOf b k \<le> countOf c k"
      using assms by (simp_all add: countsGrow_def)
    then show ?thesis by simp
  qed
  then show ?thesis using order by (simp add: countsGrow_def)
qed

lemma admissionOnly_countsGrow: "admissionOnly st st' \<Longrightarrow> countsGrow st st'"
  by (auto simp: admissionOnly_def countsGrow_def countOf_def)

lemma selectProvider_countsGrow: "countsGrow st (snd (selectProvider clk request st))"
  using selectProvider_admissionOnly by (rule admissionOnly_countsGrow)

lemma generate_countsGrow: "countsGrow st (snd (generate clk getCredential request st))"
proof (cases "fst (selectProvider clk request st)")
  case None
  then have "snd (generate clk getCredential request st) = snd (selectProvider clk request st)"
    by (simp add: generate_steps)
  then show ?thesis by (simp add: selectProvider_countsGrow)
next
  case (Some selected)
  let ?st1 = "snd (selectProvider clk request st)"
  let ?st4 = "afterFirstCall selected ?st1"
  let ?st' = "snd (generate clk getCredential request st)"
  have 1: "countsGrow st ?st1" by (rule selectProvider_countsGrow)
  have 2: "countsGrow ?st1 ?st4"
    by (simp add: countsGrow_def afterFirstCall_frame afterFirstCall_countOf)
  have "admissionOnly ?st4 (?st'\<lparr>callLog := callLog ?st4\<rparr>)"
    using Some by (rule generate_counts_after_selection)
  then have "countsGrow ?st4 (?st'\<lparr>callLog := callLog ?st4\<rparr>)"
    by (rule admissionOnly_countsGrow)
  then have 3: "countsGrow ?st4 ?st'"
    by (simp add: countsGrow_def)
  show ?thesis
    using countsGrow_trans [OF countsGrow_trans [OF 1 2] 3] .
qed

lemma calls_countsGrow: "calls clk st st' \<Longrightarrow> countsGrow st st'"
proof (induction rule: calls.induct)
  case (no_call st)
  show ?case by (rule countsGrow_refl)
next
  case (then_select st st' request)
  then show ?case
    using selectProvider_countsGrow countsGrow_trans by blast
next
  case (then_generate st st' getCredential request)
  then show ?case
    using generate_countsGrow countsGrow_trans by blast
qed

section \<open>Unfolding the examples\<close>

lemmas example_defs = registryOf_def providerA_def providerB_def providerC_def plainRequest_def
  frozenClock_def allFail_def allSucceed_def

lemmas run_defs = generate_steps selectProvider_rules preferredRule_def capabilityRule_def
  getFallbackProvider_def getAvailableProviders_def isWithinRateLimit_def countOf_def
  afterFirstCall_def afterFallbackCall_def recordRequest_def respond_def estimateTokens_def
  hasAllCapabilities_def resetCounts_def

section \<open>C1: how many providers one \<open>generate\<close> calls\<close>

text \<open>
  Claim C1 says that \<open>generate\<close> calls every enabled provider once when all calls
  fail, three calls for three enabled providers, and then returns an \<open>Exhausted\<close>
  outcome.  With \<open>A\<close>, \<open>B\<close> and \<open>C\<close> enabled, unused, and every call failing,
  \<open>generate\<close> calls \<open>A\<close> and \<open>B\<close>, never \<open>C\<close>, and throws.
\<close>

theorem three_attempts_counterexample:
  "length (providers (registryOf [providerA, providerB, providerC] (\<lambda>_. 0))) = 3 \<and>
   callLog (snd (generate frozenClock allFail plainRequest
                   (registryOf [providerA, providerB, providerC] (\<lambda>_. 0)))) = [''A'', ''B''] \<and>
   length (callLog (snd (generate frozenClock allFail plainRequest
                   (registryOf [providerA, providerB, providerC] (\<lambda>_. 0))))) \<noteq> 3 \<and>
   isl (fst (generate frozenClock allFail plainRequest
                   (registryOf [providerA, providerB, providerC] (\<lambda>_. 0))))"
proof -
  have "generate frozenClock allFail plainRequest
                   (registryOf [providerA, providerB, providerC] (\<lambda>_. 0))
    = (Inl (CallFailed ''B''),
       (registryOf [providerA, providerB, providerC] (\<lambda>_. 0))
         \<lparr>requestCounts := (requestCounts (registryOf [providerA, providerB, providerC] (\<lambda>_. 0)))
                             (''A'' \<mapsto> 1),
          tick := 3, callLog := [''A'', ''B'']\<rparr>)"
    by (simp add: run_defs example_defs)
  then show ?thesis by (simp add: registryOf_def)
qed

text \<open>
  Claim C1, amended.  In a well-formed registry, when every call fails, \<open>generate\<close>
  calls at most two providers, and no more than there are enabled providers; the
  providers called are enabled and different from one another; and \<open>generate\<close> then
  throws.  When \<open>selectProvider\<close> returns nothing, no provider is called and the
  error is \<open>No LLM provider available\<close>.  Otherwise the first call goes to the
  selected provider; when \<open>getFallbackProvider\<close>, asked in the state the failed call
  leaves behind, returns nothing, that is the only call and its failure is thrown;
  when it returns a fallback, the second call goes to that fallback and the
  fallback's failure is thrown.  With a plain request against two or more enabled
  providers that are all below a positive limit, the calls are exactly two: the first
  two providers of the priority-sorted listing.  So with three enabled failing
  providers \<open>generate\<close> makes exactly two calls.
\<close>

theorem generate_calls_at_most_two:
  assumes "wellFormed st" and "\<forall>n. \<exists>e. getCredential n = Inl e"
  shows "\<exists>attempts e.
           callLog (snd (generate clk getCredential request st)) = callLog st @ attempts \<and>
           fst (generate clk getCredential request st) = Inl e \<and>
           length attempts \<le> 2 \<and> length attempts \<le> length (providers st) \<and>
           distinct attempts \<and> set attempts \<subseteq> fst ` set (providers st) \<and>
           (case fst (selectProvider clk request st) of
              None \<Rightarrow> attempts = [] \<and> e = NoProviderAvailable
            | Some selected \<Rightarrow>
                (case fst (getFallbackProvider clk selected
                             (snd (callProvider getCredential selected request
                                     (recordRequest selected
                                        ((snd (selectProvider clk request st))
                                           \<lparr>tick := tick (snd (selectProvider clk request st)) + 1\<rparr>))))) of
                   None \<Rightarrow> attempts = [name selected] \<and> getCredential (name selected) = Inl e
                 | Some fallback \<Rightarrow>
                     attempts = [name selected, name fallback] \<and>
                     getCredential (name fallback) = Inl e)) \<and>
           ((preferredProvider request = None \<or> preferredProvider request = Some []) \<and>
            (requiredCapabilities request = None \<or> requiredCapabilities request = Some []) \<and>
            2 \<le> length (providers st) \<and>
            (\<forall>p \<in> snd ` set (providers st). countOf st (name p) < rateLimit p \<and> 0 < rateLimit p)
            \<longrightarrow> attempts = map name (take 2 (getAvailableProviders st)))"
proof -
  obtain attempts e where a:
    "callLog (snd (generate clk getCredential request st)) = callLog st @ attempts"
    "fst (generate clk getCredential request st) = Inl e"
    "length attempts \<le> 2" "distinct attempts" "set attempts \<subseteq> fst ` set (providers st)"
    and path: "case fst (selectProvider clk request st) of
              None \<Rightarrow> attempts = [] \<and> e = NoProviderAvailable
            | Some selected \<Rightarrow>
                (case fst (getFallbackProvider clk selected
                             (afterFirstCall selected (snd (selectProvider clk request st)))) of
                   None \<Rightarrow> attempts = [name selected] \<and> getCredential (name selected) = Inl e
                 | Some fallback \<Rightarrow>
                     attempts = [name selected, name fallback] \<and>
                     getCredential (name fallback) = Inl e)"
    using generate_all_fail_outcome [OF assms] by blast
  have bound: "length attempts \<le> length (providers st)"
    using a(4,5) by (rule distinct_names_length)
  have exact: "attempts = map name (take 2 (getAvailableProviders st))"
    if "(preferredProvider request = None \<or> preferredProvider request = Some []) \<and>
        (requiredCapabilities request = None \<or> requiredCapabilities request = Some []) \<and>
        2 \<le> length (providers st) \<and>
        (\<forall>p \<in> snd ` set (providers st). countOf st (name p) < rateLimit p \<and> 0 < rateLimit p)"
  proof -
    have "callLog (snd (generate clk getCredential request st))
           = callLog st @ map name (take 2 (getAvailableProviders st))"
      using assms that by (intro generate_all_fail_two) blast+
    with a(1) show ?thesis by simp
  qed
  show ?thesis
    using a bound exact path by (simp only: afterFirstCall_eq) blast
qed

text \<open>
  \<open>C\<close>, \<open>A\<close> and \<open>B\<close> were enabled in that order and are unused; every call fails.
  \<open>generate\<close> calls \<open>A\<close> and \<open>B\<close>, the first two of the listing, and throws the
  failure of \<open>B\<close>.
\<close>

theorem generate_calls_at_most_two_witness:
  "map name (getAvailableProviders (registryOf [providerC, providerA, providerB] (\<lambda>_. 0)))
     = [''A'', ''B'', ''C''] \<and>
   callLog (snd (generate frozenClock allFail plainRequest
                   (registryOf [providerC, providerA, providerB] (\<lambda>_. 0)))) = [''A'', ''B''] \<and>
   fst (generate frozenClock allFail plainRequest
                   (registryOf [providerC, providerA, providerB] (\<lambda>_. 0)))
     = Inl (CallFailed ''B'')"
proof -
  let ?st = "registryOf [providerC, providerA, providerB] (\<lambda>_. 0)"
  let ?st1 = "snd (selectProvider frozenClock plainRequest ?st)"
  have listing: "getAvailableProviders ?st = [providerA, providerB, providerC]"
    by (simp add: getAvailableProviders_def example_defs)
  have names: "map name (getAvailableProviders ?st) = [''A'', ''B'', ''C'']"
    "map name (take 2 (getAvailableProviders ?st)) = [''A'', ''B'']"
    by (simp_all add: listing) (simp_all add: example_defs)
  have wf: "wellFormed ?st"
    by (simp add: wellFormed_def example_defs)
  have fail: "\<forall>n. \<exists>e. allFail n = Inl e"
    by (simp add: allFail_def)
  have plain: "preferredProvider plainRequest = None" "requiredCapabilities plainRequest = None"
    by (simp_all add: plainRequest_def)
  have three: "2 \<le> length (providers ?st)" "callLog ?st = []"
    by (simp_all add: registryOf_def)
  have idle: "\<forall>p \<in> snd ` set (providers ?st). countOf ?st (name p) < rateLimit p \<and> 0 < rateLimit p"
    by (simp add: countOf_def example_defs)
  have sel: "fst (selectProvider frozenClock plainRequest ?st) = Some providerA"
    by (simp add: run_defs example_defs)
  have fb: "fst (getFallbackProvider frozenClock providerA
                   (snd (callProvider allFail providerA plainRequest
                           (recordRequest providerA (?st1\<lparr>tick := tick ?st1 + 1\<rparr>)))))
              = Some providerB"
    by (simp add: callProvider_eq run_defs example_defs)
  obtain attempts e where a:
    "callLog (snd (generate frozenClock allFail plainRequest ?st)) = callLog ?st @ attempts"
    "fst (generate frozenClock allFail plainRequest ?st) = Inl e"
    "attempts = map name (take 2 (getAvailableProviders ?st))"
    "case fst (selectProvider frozenClock plainRequest ?st) of
              None \<Rightarrow> attempts = [] \<and> e = NoProviderAvailable
            | Some selected \<Rightarrow>
                (case fst (getFallbackProvider frozenClock selected
                             (snd (callProvider allFail selected plainRequest
                                     (recordRequest selected (?st1\<lparr>tick := tick ?st1 + 1\<rparr>))))) of
                   None \<Rightarrow> attempts = [name selected] \<and> allFail (name selected) = Inl e
                 | Some fallback \<Rightarrow>
                     attempts = [name selected, name fallback] \<and>
                     allFail (name fallback) = Inl e)"
    using generate_calls_at_most_two [OF wf fail, of frozenClock plainRequest] plain three idle
    by blast
  have "allFail (name providerB) = Inl e"
    using a(4) by (simp only: sel fb option.case)
  then have "e = CallFailed ''B''"
    by (simp add: allFail_def providerB_def)
  then show ?thesis
    using a names three(2) by simp
qed

section \<open>C2: required capabilities\<close>

text \<open>
  Claim C2 says that, for a request with required capabilities, selection never
  returns a provider that lacks one of them, and returns nothing when no enabled
  provider within its limit has them all.  Two runs show otherwise.  In the registry
  of \<open>A\<close> (without \<open>vision\<close>) and \<open>B\<close> (with \<open>vision\<close>), a request that requires
  \<open>vision\<close> and prefers \<open>A\<close> is given \<open>A\<close>.  In the catalog with no credential
  configured, \<open>Ollama\<close> is the only enabled provider and has no \<open>vision\<close>; a request
  that requires \<open>vision\<close> is given \<open>Ollama\<close>, not nothing.
\<close>

theorem required_capabilities_counterexample:
  "\<not> hasAllCapabilities [''vision''] providerA \<and>
   fst (selectProvider frozenClock
          (plainRequest\<lparr>preferredProvider := Some ''A'', requiredCapabilities := Some [''vision'']\<rparr>)
          (registryOf [providerA, providerB] (\<lambda>_. 0))) = Some providerA \<and>
   map name (getAvailableProviders (newOrchestrator frozenClock (\<lambda>_. False))) = [''Ollama''] \<and>
   map_option name
     (fst (selectProvider frozenClock (plainRequest\<lparr>requiredCapabilities := Some [''vision'']\<rparr>)
             (newOrchestrator frozenClock (\<lambda>_. False)))) = Some ''Ollama'' \<and>
   map_option (hasAllCapabilities [''vision''])
     (fst (selectProvider frozenClock (plainRequest\<lparr>requiredCapabilities := Some [''vision'']\<rparr>)
             (newOrchestrator frozenClock (\<lambda>_. False)))) = Some False"
proof -
  have "\<not> hasAllCapabilities [''vision''] providerA"
    by (simp add: hasAllCapabilities_def providerA_def)
  moreover have "fst (selectProvider frozenClock
          (plainRequest\<lparr>preferredProvider := Some ''A'', requiredCapabilities := Some [''vision'']\<rparr>)
          (registryOf [providerA, providerB] (\<lambda>_. 0))) = Some providerA"
    by (simp add: selectProvider_rules preferredRule_def isWithinRateLimit_def countOf_def
          example_defs)
  moreover have "map name (getAvailableProviders (newOrchestrator frozenClock (\<lambda>_. False)))
                   = [''Ollama'']"
    by (simp add: getAvailableProviders_def newOrchestrator_def providerConfigs_def)
  moreover have "map_option name
     (fst (selectProvider frozenClock (plainRequest\<lparr>requiredCapabilities := Some [''vision'']\<rparr>)
             (newOrchestrator frozenClock (\<lambda>_. False)))) = Some ''Ollama''"
    by (simp add: selectProvider_rules preferredRule_def capabilityRule_def
          getAvailableProviders_def isWithinRateLimit_def countOf_def hasAllCapabilities_def
          newOrchestrator_def providerConfigs_def example_defs)
  moreover have "map_option (hasAllCapabilities [''vision''])
     (fst (selectProvider frozenClock (plainRequest\<lparr>requiredCapabilities := Some [''vision'']\<rparr>)
             (newOrchestrator frozenClock (\<lambda>_. False)))) = Some False"
    by (simp add: selectProvider_rules preferredRule_def capabilityRule_def
          getAvailableProviders_def isWithinRateLimit_def countOf_def hasAllCapabilities_def
          newOrchestrator_def providerConfigs_def example_defs)
  ultimately show ?thesis by simp
qed

text \<open>
  Claim C2, amended.  Take a request with a non-empty list of required capabilities
  for which the preferred-provider rule returns nothing.  If some enabled provider
  has all required capabilities, a positive limit and a count below it, then
  \<open>selectProvider\<close> returns an enabled provider that has all required capabilities,
  and whose priority value is not greater than that provider's.  While the window
  does not roll over, it is the first provider of the listing that has all required
  capabilities and is below its limit.
\<close>

theorem capable_provider_is_selected:
  assumes "preferredUnavailable clk request st"
    and "requiredCapabilities request = Some required" and "required \<noteq> []"
    and "w \<in> snd ` set (providers st)" and "hasAllCapabilities required w"
    and "countOf st (name w) < rateLimit w" and "0 < rateLimit w"
  shows "(\<exists>q. fst (selectProvider clk request st) = Some q \<and> q \<in> snd ` set (providers st) \<and>
              hasAllCapabilities required q \<and> priority q \<le> priority w) \<and>
         (noRollover clk st \<longrightarrow>
            fst (selectProvider clk request st)
              = find (\<lambda>p. hasAllCapabilities required p \<and> countOf st (name p) < rateLimit p)
                  (getAvailableProviders st))"
proof -
  let ?st1 = "snd (preferredRule clk request st)"
  let ?available = "getAvailableProviders st"
  have enabled: "providers st \<noteq> []" using assms(4) by auto
  have miss: "fst (preferredRule clk request st) = None"
    using assms(1) by (simp add: preferredUnavailable_iff)
  have a1: "admissionOnly st ?st1" by (rule preferredRule_admissionOnly)
  have below: "countOf ?st1 (name w) < rateLimit w"
    using a1 assms(6,7) by (rule admissionOnly_below)
  have cap: "capabilityRule clk request ?available ?st1
               = firstWithinRateLimit clk (hasAllCapabilities required) ?available ?st1"
    using assms(2,3) by (simp add: capabilityRule_def)
  have w: "w \<in> set ?available" using assms(4) by simp
  obtain q where q: "fst (firstWithinRateLimit clk (hasAllCapabilities required) ?available ?st1) = Some q"
    "q \<in> set ?available" "hasAllCapabilities required q" "priority q \<le> priority w"
    using firstWithinRateLimit_finds [of w ?available "hasAllCapabilities required" ?st1 clk]
      w assms(5,7) below sorted_getAvailableProviders [of st]
    by blast
  have sel: "selectProvider clk request st
               = firstWithinRateLimit clk (hasAllCapabilities required) ?available ?st1"
    using enabled miss cap q(1) by (simp add: selectProvider_rules)
  have first: "\<exists>q. fst (selectProvider clk request st) = Some q \<and> q \<in> snd ` set (providers st) \<and>
              hasAllCapabilities required q \<and> priority q \<le> priority w"
    using sel q by auto
  have second: "fst (selectProvider clk request st)
              = find (\<lambda>p. hasAllCapabilities required p \<and> countOf st (name p) < rateLimit p) ?available"
    if nr: "noRollover clk st"
  proof -
    have l1: "laterThan st ?st1" using nr by (rule preferredRule_noRollover)
    have n1: "noRollover clk ?st1" using l1 nr by (rule laterThan_noRollover)
    have "fst (firstWithinRateLimit clk (hasAllCapabilities required) ?available ?st1)
            = find (\<lambda>p. hasAllCapabilities required p \<and> countOf ?st1 (name p) < rateLimit p) ?available"
      using firstWithinRateLimit_noRollover [OF n1] by simp
    then show ?thesis
      using sel by (simp add: laterThan_countOf [OF l1])
  qed
  show ?thesis using first second by blast
qed

text \<open>
  The catalog with the credentials of \<open>Gemini\<close> and \<open>Claude\<close> configured and no request
  counted yet: a request that requires \<open>vision\<close> is given \<open>Gemini\<close>, although \<open>Claude\<close>
  and \<open>Ollama\<close> come before it in the listing.
\<close>

theorem capable_provider_is_selected_witness:
  "map name (getAvailableProviders
               (newOrchestrator frozenClock (\<lambda>n. n = ''Gemini'' \<or> n = ''Claude'')))
     = [''Claude'', ''Ollama'', ''Gemini''] \<and>
   map_option name
     (fst (selectProvider frozenClock (plainRequest\<lparr>requiredCapabilities := Some [''vision'']\<rparr>)
             (newOrchestrator frozenClock (\<lambda>n. n = ''Gemini'' \<or> n = ''Claude''))))
     = Some ''Gemini''"
proof -
  let ?st = "newOrchestrator frozenClock (\<lambda>n. n = ''Gemini'' \<or> n = ''Claude'')"
  let ?request = "plainRequest\<lparr>requiredCapabilities := Some [''vision'']\<rparr>"
  let ?gemini = "providerConfigs ! 4"
  have listing: "map name (getAvailableProviders ?st) = [''Claude'', ''Ollama'', ''Gemini'']"
    by (simp add: getAvailableProviders_def newOrchestrator_def providerConfigs_def)
  have 1: "preferredUnavailable frozenClock ?request ?st"
    by (simp add: preferredUnavailable_def plainRequest_def)
  have 2: "requiredCapabilities ?request = Some [''vision'']" by simp
  have 3: "[''vision''] \<noteq> []" by simp
  have 4: "?gemini \<in> snd ` set (providers ?st)"
    by (simp add: newOrchestrator_def providerConfigs_def)
  have 5: "hasAllCapabilities [''vision''] ?gemini"
    by (simp add: hasAllCapabilities_def providerConfigs_def)
  have 6: "countOf ?st (name ?gemini) < rateLimit ?gemini"
    by (simp add: countOf_def newOrchestrator_def providerConfigs_def)
  have 7: "0 < rateLimit ?gemini"
    by (simp add: providerConfigs_def)
  have nr: "noRollover frozenClock ?st"
    by (simp add: noRollover_def newOrchestrator_def providerConfigs_def frozenClock_def)
  have f: "fst (selectProvider frozenClock ?request ?st)
          = find (\<lambda>p. hasAllCapabilities [''vision''] p \<and> countOf ?st (name p) < rateLimit p)
              (getAvailableProviders ?st)"
    using capable_provider_is_selected [OF 1 2 3 4 5 6 7] nr by blast
  have g: "map_option name
              (find (\<lambda>p. hasAllCapabilities [''vision''] p \<and> countOf ?st (name p) < rateLimit p)
                 (getAvailableProviders ?st)) = Some ''Gemini''"
    by (simp add: getAvailableProviders_def hasAllCapabilities_def countOf_def
          newOrchestrator_def providerConfigs_def)
  show ?thesis using listing g by (simp only: f simp_thms)
qed

section \<open>C3: what \<open>generate\<close> throws\<close>

text \<open>
  Claim C3 says that \<open>generate\<close> never throws when no provider is eligible or all
  are exhausted, and that a failed call is always recovered by moving on to the next
  provider.  With \<open>A\<close> alone enabled and at its limit, \<open>generate\<close> throws
  \<open>No LLM provider available\<close>.  With \<open>A\<close>, \<open>B\<close> and \<open>C\<close> enabled, unused, and every
  call failing, \<open>generate\<close> throws the failure of \<open>B\<close>, and \<open>C\<close>, which passes its
  admission check, is never called.
\<close>

theorem generate_never_throws_counterexample:
  "fst (generate frozenClock allSucceed plainRequest (registryOf [providerA] (\<lambda>_. 1)))
     = Inl NoProviderAvailable \<and>
   fst (generate frozenClock allFail plainRequest
          (registryOf [providerA, providerB, providerC] (\<lambda>_. 0))) = Inl (CallFailed ''B'') \<and>
   fst (isWithinRateLimit frozenClock providerC
          (snd (generate frozenClock allFail plainRequest
                  (registryOf [providerA, providerB, providerC] (\<lambda>_. 0))))) \<and>
   ''C'' \<notin> set (callLog (snd (generate frozenClock allFail plainRequest
                  (registryOf [providerA, providerB, providerC] (\<lambda>_. 0)))))"
proof -
  have "fst (generate frozenClock allSucceed plainRequest (registryOf [providerA] (\<lambda>_. 1)))
          = Inl NoProviderAvailable"
    by (simp add: run_defs example_defs)
  moreover have "generate frozenClock allFail plainRequest
                   (registryOf [providerA, providerB, providerC] (\<lambda>_. 0))
    = (Inl (CallFailed ''B''),
       (registryOf [providerA, providerB, providerC] (\<lambda>_. 0))
         \<lparr>requestCounts := (requestCounts (registryOf [providerA, providerB, providerC] (\<lambda>_. 0)))
                             (''A'' \<mapsto> 1),
          tick := 3, callLog := [''A'', ''B'']\<rparr>)"
    by (simp add: run_defs example_defs)
  ultimately show ?thesis
    by (simp add: isWithinRateLimit_def countOf_def example_defs)
qed

text \<open>
  Claim C3, amended.  \<open>generate\<close> throws, and in these situations only: when
  \<open>selectProvider\<close> returns nothing it throws \<open>No LLM provider available\<close> without
  calling a provider; otherwise, when it throws, it has made one or two calls, all of
  them failed, and what it throws is the failure of the last call.  When it answers,
  it has made one or two calls and the answer is that of the last call, which
  succeeded.  So a failed call of the selected provider is recovered locally only by
  one call of the fallback that succeeds; every other failure reaches the caller.
\<close>

theorem generate_outcomes:
  "(fst (selectProvider clk request st) = None \<longrightarrow>
      fst (generate clk getCredential request st) = Inl NoProviderAvailable \<and>
      callLog (snd (generate clk getCredential request st)) = callLog st) \<and>
   (\<forall>e. fst (generate clk getCredential request st) = Inl e \<longrightarrow>
      (fst (selectProvider clk request st) = None \<and> e = NoProviderAvailable) \<or>
      (\<exists>attempts. callLog (snd (generate clk getCredential request st)) = callLog st @ attempts \<and>
         attempts \<noteq> [] \<and> length attempts \<le> 2 \<and>
         list_all (\<lambda>n. \<exists>e'. getCredential n = Inl e') attempts \<and>
         getCredential (last attempts) = Inl e)) \<and>
   (\<forall>r. fst (generate clk getCredential request st) = Inr r \<longrightarrow>
      (\<exists>attempts credential.
         callLog (snd (generate clk getCredential request st)) = callLog st @ attempts \<and>
         attempts \<noteq> [] \<and> length attempts \<le> 2 \<and>
         list_all (\<lambda>n. \<exists>e'. getCredential n = Inl e') (butlast attempts) \<and>
         getCredential (last attempts) = Inr credential \<and>
         provider r = last attempts \<and>
         responseText r = ''[Response from '' @ last attempts @ '']''))"
proof -
  let ?st' = "snd (generate clk getCredential request st)"
  show ?thesis
  proof (cases rule: generate_cases [of clk request st getCredential])
    case none
    then show ?thesis by (simp add: selectProvider_frame)
  next
    case (first_ok selected credential)
    have log: "callLog ?st' = callLog st @ [name selected]"
      using first_ok(1,2) by (rule generate_callLog(2))
    have "\<exists>attempts credential.
         callLog ?st' = callLog st @ attempts \<and> attempts \<noteq> [] \<and> length attempts \<le> 2 \<and>
         list_all (\<lambda>n. \<exists>e'. getCredential n = Inl e') (butlast attempts) \<and>
         getCredential (last attempts) = Inr credential \<and>
         name selected = last attempts \<and>
         ''[Response from '' @ name selected @ '']'' = ''[Response from '' @ last attempts @ '']''"
      using log first_ok(2) by (intro exI [of _ "[name selected]"] exI [of _ credential]) simp
    then show ?thesis
      using first_ok(1,3) by (simp add: respond_def)
  next
    case (no_fallback selected err)
    have log: "callLog ?st' = callLog st @ [name selected]"
      using no_fallback(1,2,3) by (rule generate_callLog(3))
    have "\<exists>attempts. callLog ?st' = callLog st @ attempts \<and>
         attempts \<noteq> [] \<and> length attempts \<le> 2 \<and>
         list_all (\<lambda>n. \<exists>e'. getCredential n = Inl e') attempts \<and>
         getCredential (last attempts) = Inl err"
      using log no_fallback(2) by (intro exI [of _ "[name selected]"]) simp
    then show ?thesis
      using no_fallback(1,4) by simp
  next
    case (fallback_ok selected err fallback credential)
    have log: "callLog ?st' = callLog st @ [name selected, name fallback]"
      using fallback_ok(1,2,3) by (rule generate_callLog(4))
    have "\<exists>attempts credential.
         callLog ?st' = callLog st @ attempts \<and> attempts \<noteq> [] \<and> length attempts \<le> 2 \<and>
         list_all (\<lambda>n. \<exists>e'. getCredential n = Inl e') (butlast attempts) \<and>
         getCredential (last attempts) = Inr credential \<and>
         name fallback = last attempts \<and>
         ''[Response from '' @ name fallback @ '']'' = ''[Response from '' @ last attempts @ '']''"
      using log fallback_ok(2,4)
      by (intro exI [of _ "[name selected, name fallback]"] exI [of _ credential]) simp
    then show ?thesis
      using fallback_ok(1,5) by (simp add: respond_def)
  next
    case (fallback_failed selected err fallback err2)
    have log: "callLog ?st' = callLog st @ [name selected, name fallback]"
      using fallback_failed(1,2,3) by (rule generate_callLog(4))
    have "\<exists>attempts. callLog ?st' = callLog st @ attempts \<and>
         attempts \<noteq> [] \<and> length attempts \<le> 2 \<and>
         list_all (\<lambda>n. \<exists>e'. getCredential n = Inl e') attempts \<and>
         getCredential (last attempts) = Inl err2"
      using log fallback_failed(2,4) by (intro exI [of _ "[name selected, name fallback]"]) simp
    then show ?thesis
      using fallback_failed(1,5) by simp
  qed
qed

text \<open>
  With \<open>A\<close> alone enabled and at its limit, \<open>selectProvider\<close> returns nothing, so
  \<open>generate\<close> throws \<open>No LLM provider available\<close> and calls nobody.  With \<open>A\<close>, \<open>B\<close>
  and \<open>C\<close> unused and every call failing, \<open>generate\<close> throws the failure of \<open>B\<close>: it
  has made at most two calls and \<open>B\<close> was the last.  With \<open>A\<close> and \<open>B\<close> unused, the
  call to \<open>A\<close> failing and the call to \<open>B\<close> succeeding, \<open>generate\<close> answers from \<open>B\<close>,
  the last provider called.
\<close>

theorem generate_outcomes_witness:
  "fst (generate frozenClock allSucceed plainRequest (registryOf [providerA] (\<lambda>_. 1)))
     = Inl NoProviderAvailable \<and>
   callLog (snd (generate frozenClock allSucceed plainRequest (registryOf [providerA] (\<lambda>_. 1))))
     = [] \<and>
   fst (generate frozenClock allFail plainRequest
          (registryOf [providerA, providerB, providerC] (\<lambda>_. 0))) = Inl (CallFailed ''B'') \<and>
   length (callLog (snd (generate frozenClock allFail plainRequest
          (registryOf [providerA, providerB, providerC] (\<lambda>_. 0))))) \<le> 2 \<and>
   allFail (last (callLog (snd (generate frozenClock allFail plainRequest
          (registryOf [providerA, providerB, providerC] (\<lambda>_. 0)))))) = Inl (CallFailed ''B'') \<and>
   fst (generate frozenClock (\<lambda>n. if n = ''A'' then Inl (CallFailed n) else Inr ''key'')
          plainRequest (registryOf [providerA, providerB] (\<lambda>_. 0)))
     = Inr \<lparr>responseText = ''[Response from B]'', provider = ''B'', responseModel = ''model-b'',
            tokensUsed = 5, responseLatency = 0, cached = False\<rparr> \<and>
   last (callLog (snd (generate frozenClock
          (\<lambda>n. if n = ''A'' then Inl (CallFailed n) else Inr ''key'')
          plainRequest (registryOf [providerA, providerB] (\<lambda>_. 0))))) = ''B''"
proof -
  let ?full = "registryOf [providerA] (\<lambda>_. 1)"
  let ?idle = "registryOf [providerA, providerB, providerC] (\<lambda>_. 0)"
  let ?two = "registryOf [providerA, providerB] (\<lambda>_. 0)"
  let ?credential = "\<lambda>n. if n = ''A'' then Inl (CallFailed n) else Inr ''key''"
  let ?answer = "\<lparr>responseText = ''[Response from B]'', provider = ''B'',
                  responseModel = ''model-b'', tokensUsed = 5, responseLatency = 0,
                  cached = False\<rparr>"
  have none: "fst (selectProvider frozenClock plainRequest ?full) = None"
    by (simp add: run_defs example_defs)
  have empty: "callLog ?full = []" "callLog ?idle = []" "callLog ?two = []"
    by (simp_all add: example_defs)
  have first: "fst (generate frozenClock allSucceed plainRequest ?full) = Inl NoProviderAvailable \<and>
      callLog (snd (generate frozenClock allSucceed plainRequest ?full)) = []"
    using generate_outcomes [of frozenClock plainRequest ?full allSucceed] none empty by simp
  have thrown: "fst (generate frozenClock allFail plainRequest ?idle) = Inl (CallFailed ''B'')"
    by (simp add: run_defs example_defs)
  have "(fst (selectProvider frozenClock plainRequest ?idle) = None \<and>
           CallFailed ''B'' = NoProviderAvailable) \<or>
      (\<exists>attempts. callLog (snd (generate frozenClock allFail plainRequest ?idle))
           = callLog ?idle @ attempts \<and>
         attempts \<noteq> [] \<and> length attempts \<le> 2 \<and>
         list_all (\<lambda>n. \<exists>e'. allFail n = Inl e') attempts \<and>
         allFail (last attempts) = Inl (CallFailed ''B''))"
    using generate_outcomes [of frozenClock plainRequest ?idle allFail] thrown by blast
  then have second: "length (callLog (snd (generate frozenClock allFail plainRequest ?idle))) \<le> 2 \<and>
      allFail (last (callLog (snd (generate frozenClock allFail plainRequest ?idle))))
        = Inl (CallFailed ''B'')"
    using empty by auto
  have answered: "fst (generate frozenClock ?credential plainRequest ?two) = Inr ?answer"
    by (simp add: run_defs example_defs)
  have "\<exists>attempts credential.
         callLog (snd (generate frozenClock ?credential plainRequest ?two)) = callLog ?two @ attempts \<and>
         attempts \<noteq> [] \<and> length attempts \<le> 2 \<and>
         list_all (\<lambda>n. \<exists>e'. ?credential n = Inl e') (butlast attempts) \<and>
         ?credential (last attempts) = Inr credential \<and>
         provider ?answer = last attempts \<and>
         responseText ?answer = ''[Response from '' @ last attempts @ '']''"
    using generate_outcomes [of frozenClock plainRequest ?two ?credential] answered by blast
  then have third: "last (callLog (snd (generate frozenClock ?credential plainRequest ?two))) = ''B''"
    using empty by auto
  show ?thesis using first thrown second answered third by simp
qed

section \<open>C4: which operation consumes the admission slot\<close>

text \<open>
  Claim C4 says that \<open>selectProvider\<close> itself consumes one admission slot of the
  provider it returns.  With \<open>A\<close> and \<open>B\<close> both at count 0, \<open>selectProvider\<close> returns
  \<open>A\<close> and the count of \<open>A\<close> is still 0 afterwards.
\<close>

theorem selection_consumes_slot_counterexample:
  "fst (selectProvider frozenClock plainRequest (registryOf [providerA, providerB] (\<lambda>_. 0)))
     = Some providerA \<and>
   countOf (registryOf [providerA, providerB] (\<lambda>_. 0)) ''A'' = 0 \<and>
   countOf (snd (selectProvider frozenClock plainRequest
                   (registryOf [providerA, providerB] (\<lambda>_. 0)))) ''A'' = 0"
  by (simp add: selectProvider_def getAvailableProviders_def isWithinRateLimit_def countOf_def
        example_defs)

text \<open>
  Claim C4, amended.  \<open>selectProvider\<close> consumes no admission slot: it never raises a
  count (every count is afterwards what it was before, or 0 after a window reset),
  and while the window does not roll over it changes neither the counts nor the
  window start.  The slot is consumed by \<open>generate\<close>, which records the request for
  the provider that \<open>selectProvider\<close> returned: while the window does not roll over,
  the counts after \<open>generate\<close> are the counts before it with the selected provider's
  count raised by one, and no other count changed.
\<close>

theorem selection_consumes_no_slot:
  "(\<forall>k. countOf (snd (selectProvider clk request st)) k = countOf st k \<or>
        countOf (snd (selectProvider clk request st)) k = 0) \<and>
   (noRollover clk st \<longrightarrow>
      requestCounts (snd (selectProvider clk request st)) = requestCounts st \<and>
      lastReset (snd (selectProvider clk request st)) = lastReset st) \<and>
   (\<forall>selected. noRollover clk st \<and> fst (selectProvider clk request st) = Some selected \<longrightarrow>
      requestCounts (snd (generate clk getCredential request st))
        = (requestCounts st)(name selected \<mapsto> countOf st (name selected) + 1))"
proof (intro conjI allI impI)
  fix k
  show "countOf (snd (selectProvider clk request st)) k = countOf st k \<or>
        countOf (snd (selectProvider clk request st)) k = 0"
    using selectProvider_admissionOnly by (rule admissionOnly_countOf)
next
  assume nr: "noRollover clk st"
  have "laterThan st (snd (selectProvider clk request st))"
    using nr by (rule selectProvider_noRollover)
  then show "requestCounts (snd (selectProvider clk request st)) = requestCounts st"
    and "lastReset (snd (selectProvider clk request st)) = lastReset st"
    by (simp_all add: laterThan_def)
next
  fix selected
  assume "noRollover clk st \<and> fst (selectProvider clk request st) = Some selected"
  then show "requestCounts (snd (generate clk getCredential request st))
        = (requestCounts st)(name selected \<mapsto> countOf st (name selected) + 1)"
    using generate_noRollover_counts(1) by blast
qed

text \<open>
  \<open>A\<close> has used no slot, \<open>B\<close> has used two.  Selection returns \<open>A\<close> and leaves both
  counts alone; \<open>generate\<close> raises the count of \<open>A\<close> to 1 and leaves \<open>B\<close> at 2.
\<close>

theorem selection_consumes_no_slot_witness:
  "noRollover frozenClock (registryOf [providerA, providerB] (\<lambda>n. if n = ''B'' then 2 else 0)) \<and>
   fst (selectProvider frozenClock plainRequest
          (registryOf [providerA, providerB] (\<lambda>n. if n = ''B'' then 2 else 0))) = Some providerA \<and>
   map (countOf (snd (selectProvider frozenClock plainRequest
          (registryOf [providerA, providerB] (\<lambda>n. if n = ''B'' then 2 else 0))))) [''A'', ''B'']
     = [0, 2] \<and>
   map (countOf (snd (generate frozenClock allSucceed plainRequest
          (registryOf [providerA, providerB] (\<lambda>n. if n = ''B'' then 2 else 0))))) [''A'', ''B'']
     = [1, 2]"
proof -
  let ?st = "registryOf [providerA, providerB] (\<lambda>n. if n = ''B'' then 2 else 0)"
  have nr: "noRollover frozenClock ?st"
    by (simp add: noRollover_def example_defs)
  have sel: "fst (selectProvider frozenClock plainRequest ?st) = Some providerA"
    by (simp add: selectProvider_def getAvailableProviders_def isWithinRateLimit_def countOf_def
        example_defs)
  have c: "countOf ?st ''A'' = 0" "countOf ?st ''B'' = 2" "name providerA = ''A''"
    by (simp_all add: countOf_def example_defs)
  have s: "requestCounts (snd (selectProvider frozenClock plainRequest ?st)) = requestCounts ?st"
    and g: "requestCounts (snd (generate frozenClock allSucceed plainRequest ?st))
        = (requestCounts ?st)(name providerA \<mapsto> countOf ?st (name providerA) + 1)"
    using selection_consumes_no_slot [of frozenClock plainRequest ?st allSucceed] nr sel
    by blast+
  have "map (countOf (snd (selectProvider frozenClock plainRequest ?st))) [''A'', ''B''] = [0, 2]"
    using c by (simp add: countOf_cong [OF s])
  moreover have "map (countOf (snd (generate frozenClock allSucceed plainRequest ?st))) [''A'', ''B''] = [1, 2]"
    using c by (simp add: countOf_def g)
  ultimately show ?thesis using nr sel by simp
qed

section \<open>C5: the rate-limit window\<close>

text \<open>
  Claim C5 says that every provider has a window start of its own, that a window is
  reset when 60 s or more have passed, and that an admission check on one provider
  never changes another provider's count.  The class has one \<open>lastReset\<close> for all
  providers.  With \<open>A\<close> and \<open>B\<close> both at count 1 and the window started at 0, an
  admission check on \<open>A\<close> at 60001 ms sets the count of \<open>B\<close> to 0; and at exactly
  60000 ms nothing is reset: the count of \<open>A\<close> stays 1 and the window start stays 0.
\<close>

theorem window_counterexample:
  "countOf (registryOf [providerA, providerB] (\<lambda>_. 1)) ''B'' = 1 \<and>
   countOf (snd (isWithinRateLimit (\<lambda>_. 60001) providerA
                   (registryOf [providerA, providerB] (\<lambda>_. 1)))) ''B'' = 0 \<and>
   countOf (snd (isWithinRateLimit (\<lambda>_. 60000) providerA
                   (registryOf [providerA, providerB] (\<lambda>_. 1)))) ''A'' = 1 \<and>
   lastReset (snd (isWithinRateLimit (\<lambda>_. 60000) providerA
                   (registryOf [providerA, providerB] (\<lambda>_. 1)))) = 0"
  by (simp add: isWithinRateLimit_def countOf_def resetCounts_def example_defs)

text \<open>
  Claim C5, amended.  The window is shared: there is one window start for all
  providers.  An admission check on any provider that reads a clock value more than
  60000 ms after the window start sets every count to 0 and the window start to that
  clock value; an admission check at most 60000 ms after the window start changes no
  count and leaves the window start alone.  Recording a request for one provider adds
  one to that provider's count and changes neither another provider's count nor the
  window start.
\<close>

theorem window_is_shared_by_all_providers:
  "(clk (tick st) - lastReset st > 60000 \<longrightarrow>
      requestCounts (snd (isWithinRateLimit clk p st)) = resetCounts (requestCounts st) \<and>
      (\<forall>k. countOf (snd (isWithinRateLimit clk p st)) k = 0) \<and>
      lastReset (snd (isWithinRateLimit clk p st)) = clk (tick st)) \<and>
   (clk (tick st) - lastReset st \<le> 60000 \<longrightarrow>
      requestCounts (snd (isWithinRateLimit clk p st)) = requestCounts st \<and>
      lastReset (snd (isWithinRateLimit clk p st)) = lastReset st) \<and>
   (\<forall>k. k \<noteq> name p \<longrightarrow> countOf (recordRequest p st) k = countOf st k) \<and>
   countOf (recordRequest p st) (name p) = countOf st (name p) + 1 \<and>
   lastReset (recordRequest p st) = lastReset st"
proof (intro conjI impI allI)
  assume stale: "clk (tick st) - lastReset st > 60000"
  show "requestCounts (snd (isWithinRateLimit clk p st)) = resetCounts (requestCounts st)"
    using stale by (simp add: isWithinRateLimit_stale)
  show "lastReset (snd (isWithinRateLimit clk p st)) = clk (tick st)"
    using stale by (simp add: isWithinRateLimit_stale)
  fix k
  show "countOf (snd (isWithinRateLimit clk p st)) k = 0"
    using stale by (simp add: isWithinRateLimit_stale)
next
  assume "clk (tick st) - lastReset st \<le> 60000"
  then have fresh: "\<not> clk (tick st) - lastReset st > 60000" by simp
  show "requestCounts (snd (isWithinRateLimit clk p st)) = requestCounts st"
    using fresh by (simp add: isWithinRateLimit_not_stale)
  show "lastReset (snd (isWithinRateLimit clk p st)) = lastReset st"
    using fresh by (simp add: isWithinRateLimit_not_stale)
next
  fix k
  assume "k \<noteq> name p"
  then show "countOf (recordRequest p st) k = countOf st k"
    by (simp add: recordRequest_countOf)
next
  show "countOf (recordRequest p st) (name p) = countOf st (name p) + 1"
    by (simp add: recordRequest_countOf)
  show "lastReset (recordRequest p st) = lastReset st"
    by (simp add: recordRequest_frame)
qed

text \<open>
  Three providers at count 2, window started at 0: a check on \<open>B\<close> at 70000 ms
  resets \<open>C\<close>, a check at 59999 ms changes nothing, and recording a request for \<open>B\<close>
  leaves \<open>C\<close> at 2.
\<close>

theorem window_is_shared_by_all_providers_witness:
  "countOf (registryOf [providerA, providerB, providerC] (\<lambda>_. 2)) ''C'' = 2 \<and>
   countOf (snd (isWithinRateLimit (\<lambda>_. 70000) providerB
                   (registryOf [providerA, providerB, providerC] (\<lambda>_. 2)))) ''C'' = 0 \<and>
   lastReset (snd (isWithinRateLimit (\<lambda>_. 70000) providerB
                   (registryOf [providerA, providerB, providerC] (\<lambda>_. 2)))) = 70000 \<and>
   requestCounts (snd (isWithinRateLimit (\<lambda>_. 59999) providerB
                   (registryOf [providerA, providerB, providerC] (\<lambda>_. 2))))
     = requestCounts (registryOf [providerA, providerB, providerC] (\<lambda>_. 2)) \<and>
   countOf (recordRequest providerB (registryOf [providerA, providerB, providerC] (\<lambda>_. 2))) ''C'' = 2 \<and>
   countOf (recordRequest providerB (registryOf [providerA, providerB, providerC] (\<lambda>_. 2))) ''B'' = 3"
proof -
  let ?st = "registryOf [providerA, providerB, providerC] (\<lambda>_. 2)"
  have t: "tick ?st = 0" "lastReset ?st = 0" "name providerB = ''B''"
    by (simp_all add: example_defs)
  have c: "countOf ?st ''C'' = 2" "countOf ?st ''B'' = 2"
    by (simp_all add: countOf_def example_defs)
  have n: "''C'' \<noteq> name providerB" by (simp add: example_defs)
  show ?thesis
    using window_is_shared_by_all_providers [of "\<lambda>_. 70000" ?st providerB]
      window_is_shared_by_all_providers [of "\<lambda>_. 59999" ?st providerB] t c n
    by simp
qed

section \<open>C6: counts stay within limits\<close>

text \<open>
  Claim C6.  In every state that an orchestrator can reach from its constructor
  through \<open>selectProvider\<close> and \<open>generate\<close>, the registry is well formed and the count
  of every enabled provider is at least 0 and at most the provider's limit; both
  methods keep that property of any well-formed state that has it.  And admission is
  monotonic within a window: if a provider's count has reached its limit, then after
  any further calls of \<open>selectProvider\<close> and \<open>generate\<close> that leave the window start
  where it was, an admission check for that provider that reads the clock within the
  same window returns false.
\<close>

theorem counts_stay_within_limits:
  "(reachable clk st \<longrightarrow> wellFormed st \<and> countsWithinLimits st) \<and>
   (wellFormed st \<and> countsWithinLimits st \<longrightarrow>
      countsWithinLimits (snd (selectProvider clk request st)) \<and>
      countsWithinLimits (snd (generate clk getCredential request st))) \<and>
   (calls clk st st' \<and> lastReset st' = lastReset st \<and>
    rateLimit p \<le> countOf st (name p) \<and> clk (tick st') - lastReset st' \<le> 60000 \<longrightarrow>
      \<not> fst (isWithinRateLimit clk p st'))"
proof (intro conjI impI)
  assume "reachable clk st"
  then show "wellFormed st" and "countsWithinLimits st"
    using reachable_invariant by blast+
next
  assume "wellFormed st \<and> countsWithinLimits st"
  then show "countsWithinLimits (snd (selectProvider clk request st))"
    and "countsWithinLimits (snd (generate clk getCredential request st))"
    by (simp_all add: selectProvider_countsWithinLimits generate_countsWithinLimits)
next
  assume a: "calls clk st st' \<and> lastReset st' = lastReset st \<and>
    rateLimit p \<le> countOf st (name p) \<and> clk (tick st') - lastReset st' \<le> 60000"
  then have "countsGrow st st'" using calls_countsGrow by blast
  then have "countOf st (name p) \<le> countOf st' (name p)"
    using a by (simp add: countsGrow_def)
  then have full: "rateLimit p \<le> countOf st' (name p)" using a by simp
  have "\<not> clk (tick st') - lastReset st' > 60000" using a by simp
  then have "snd (isWithinRateLimit clk p st') = st'\<lparr>tick := Suc (tick st')\<rparr>"
    by (rule isWithinRateLimit_not_stale)
  then show "\<not> fst (isWithinRateLimit clk p st')"
    using full by (simp add: isWithinRateLimit_result)
qed

text \<open>
  After one \<open>generate\<close> on the catalog with no credential configured, the orchestrator
  is in a reachable state whose counts are within the limits (\<open>Ollama\<close> has count 1).
  In the registry of \<open>A\<close> (limit 1) and \<open>B\<close>, one \<open>generate\<close> brings \<open>A\<close> to its limit;
  after a second \<open>generate\<close> in the same window the counts are still within the limits
  and the admission check for \<open>A\<close> returns false.
\<close>

theorem counts_stay_within_limits_witness:
  "countsWithinLimits
     (snd (generate frozenClock allSucceed plainRequest (newOrchestrator frozenClock (\<lambda>_. False)))) \<and>
   countOf
     (snd (generate frozenClock allSucceed plainRequest (newOrchestrator frozenClock (\<lambda>_. False))))
     ''Ollama'' = 1 \<and>
   countOf (snd (generate frozenClock allSucceed plainRequest
                   (registryOf [providerA, providerB] (\<lambda>_. 0)))) ''A'' = 1 \<and>
   countsWithinLimits
     (snd (generate frozenClock allSucceed plainRequest
        (snd (generate frozenClock allSucceed plainRequest
                (registryOf [providerA, providerB] (\<lambda>_. 0)))))) \<and>
   \<not> fst (isWithinRateLimit frozenClock providerA
     (snd (generate frozenClock allSucceed plainRequest
        (snd (generate frozenClock allSucceed plainRequest
                (registryOf [providerA, providerB] (\<lambda>_. 0)))))))"
proof -
  let ?new = "newOrchestrator frozenClock (\<lambda>_. False)"
  let ?r = "snd (generate frozenClock allSucceed plainRequest ?new)"
  let ?s0 = "registryOf [providerA, providerB] (\<lambda>_. 0)"
  let ?s1 = "snd (generate frozenClock allSucceed plainRequest ?s0)"
  let ?s2 = "snd (generate frozenClock allSucceed plainRequest ?s1)"
  have "reachable frozenClock ?r"
    by (intro reachable.generated reachable.constructed)
  then have first: "countsWithinLimits ?r"
    using counts_stay_within_limits [of frozenClock ?r] by blast
  have ollama: "countOf ?r ''Ollama'' = 1"
    by (simp add: run_defs newOrchestrator_def providerConfigs_def example_defs)
  have s1: "?s1 = ?s0\<lparr>requestCounts := (requestCounts ?s0)(''A'' \<mapsto> 1), tick := 3,
                        callLog := [''A'']\<rparr>"
    by (simp add: run_defs example_defs)
  have s2: "?s2 = ?s0\<lparr>requestCounts := (requestCounts ?s0)(''A'' \<mapsto> 1, ''B'' \<mapsto> 1), tick := 7,
                        callLog := [''A'', ''B'']\<rparr>"
    by (simp only: s1) (simp add: run_defs example_defs)
  have wf1: "wellFormed ?s1"
    by (simp only: s1) (simp add: wellFormed_def example_defs)
  have inv1: "countsWithinLimits ?s1"
    by (simp only: s1) (simp add: countsWithinLimits_def countOf_def example_defs)
  have second: "countsWithinLimits ?s2"
    using counts_stay_within_limits [of frozenClock ?s1 plainRequest allSucceed] wf1 inv1 by blast
  have "calls frozenClock ?s1 ?s2"
    by (intro calls.then_generate calls.no_call)
  moreover have "lastReset ?s2 = lastReset ?s1"
  proof -
    have "lastReset ?s2 = lastReset ?s0" by (simp add: s2)
    moreover have "lastReset ?s1 = lastReset ?s0" by (simp add: s1)
    ultimately show ?thesis by simp
  qed
  moreover have full: "countOf ?s1 ''A'' = 1" "rateLimit providerA \<le> countOf ?s1 (name providerA)"
    by (simp_all only: s1) (simp_all add: countOf_def example_defs)
  moreover have "frozenClock (tick ?s2) - lastReset ?s2 \<le> 60000"
    by (simp add: s2) (simp add: example_defs)
  ultimately have third: "\<not> fst (isWithinRateLimit frozenClock providerA ?s2)"
    using counts_stay_within_limits [of frozenClock ?s1 plainRequest allSucceed ?s2 providerA]
    by blast
  show ?thesis
    using first ollama full(1) second third by blast
qed

section \<open>C7: the default rule returns the provider of lowest priority value\<close>

text \<open>
  Claim C7.  The listing \<open>getAvailableProviders\<close> is sorted ascending by priority,
  holds exactly the enabled providers, keeps providers of equal priority in the order
  of the registry, and depends on nothing but the registry.  For a request with no
  preferred provider and no required capabilities, against a non-empty registry in
  which every enabled provider passes its admission check, \<open>selectProvider\<close> returns
  the first provider of that listing, which is an enabled provider whose priority
  value is the lowest of all.
\<close>

theorem default_selection_is_lowest_priority:
  "sorted (map priority (getAvailableProviders st)) \<and>
   mset (getAvailableProviders st) = mset (map snd (providers st)) \<and>
   (\<forall>k. filter (\<lambda>p. priority p = k) (getAvailableProviders st)
          = filter (\<lambda>p. priority p = k) (map snd (providers st))) \<and>
   (providers st' = providers st \<longrightarrow> getAvailableProviders st' = getAvailableProviders st) \<and>
   (providers st \<noteq> [] \<and>
    (preferredProvider request = None \<or> preferredProvider request = Some []) \<and>
    (requiredCapabilities request = None \<or> requiredCapabilities request = Some []) \<and>
    (\<forall>p \<in> snd ` set (providers st). fst (isWithinRateLimit clk p st)) \<longrightarrow>
      (\<exists>p. fst (selectProvider clk request st) = Some p \<and>
           p = hd (getAvailableProviders st) \<and>
           p \<in> snd ` set (providers st) \<and>
           (\<forall>q \<in> snd ` set (providers st). priority p \<le> priority q)))"
proof (intro conjI allI impI)
  show "sorted (map priority (getAvailableProviders st))"
    by (rule sorted_getAvailableProviders)
  show "mset (getAvailableProviders st) = mset (map snd (providers st))"
    by (simp add: getAvailableProviders_def)
  show "filter (\<lambda>p. priority p = k) (getAvailableProviders st)
          = filter (\<lambda>p. priority p = k) (map snd (providers st))" for k
    by (simp add: getAvailableProviders_def sort_key_stable)
  show "getAvailableProviders st' = getAvailableProviders st" if "providers st' = providers st"
    using that by (rule getAvailableProviders_cong)
next
  assume a: "providers st \<noteq> [] \<and>
    (preferredProvider request = None \<or> preferredProvider request = Some []) \<and>
    (requiredCapabilities request = None \<or> requiredCapabilities request = Some []) \<and>
    (\<forall>p \<in> snd ` set (providers st). fst (isWithinRateLimit clk p st))"
  then have "getAvailableProviders st \<noteq> []"
    by (metis length_getAvailableProviders length_0_conv)
  then obtain p ps where ps: "getAvailableProviders st = p # ps"
    by (cases "getAvailableProviders st") auto
  have mem: "p \<in> snd ` set (providers st)"
    using set_getAvailableProviders [of st] ps by auto
  then have ok: "fst (isWithinRateLimit clk p st)" using a by blast
  have pr: "preferredRule clk request st = (None, st)"
    using a by (simp add: preferredRule_skipped)
  have cr: "capabilityRule clk request (getAvailableProviders st) st = (None, st)"
    using a by (simp add: capabilityRule_skipped)
  have "fst (firstWithinRateLimit clk (\<lambda>_. True) (p # ps) st) = Some p"
    using ok by (simp add: firstWithinRateLimit_Cons del: firstWithinRateLimit.simps)
  then have sel: "fst (selectProvider clk request st) = Some p"
    using a pr cr ps by (simp add: selectProvider_rules)
  have least: "\<forall>q \<in> snd ` set (providers st). priority p \<le> priority q"
    using hd_getAvailableProviders_least [of _ st] ps by simp
  show "\<exists>p. fst (selectProvider clk request st) = Some p \<and>
           p = hd (getAvailableProviders st) \<and>
           p \<in> snd ` set (providers st) \<and>
           (\<forall>q \<in> snd ` set (providers st). priority p \<le> priority q)"
    using sel ps mem least by simp
qed

text \<open>
  The catalog with the credentials of \<open>Gemini\<close> and \<open>Claude\<close> configured:
  \<open>Claude\<close>, \<open>Ollama\<close> and \<open>Gemini\<close> are enabled and listed in that order, and a
  plain request is given \<open>Claude\<close>.
\<close>

theorem default_selection_is_lowest_priority_witness:
  "map name (getAvailableProviders
               (newOrchestrator frozenClock (\<lambda>n. n = ''Gemini'' \<or> n = ''Claude'')))
     = [''Claude'', ''Ollama'', ''Gemini''] \<and>
   map_option name (fst (selectProvider frozenClock plainRequest
               (newOrchestrator frozenClock (\<lambda>n. n = ''Gemini'' \<or> n = ''Claude''))))
     = Some ''Claude''"
proof -
  let ?st = "newOrchestrator frozenClock (\<lambda>n. n = ''Gemini'' \<or> n = ''Claude'')"
  have listing: "map name (getAvailableProviders ?st) = [''Claude'', ''Ollama'', ''Gemini'']"
    by (simp add: getAvailableProviders_def newOrchestrator_def providerConfigs_def)
  have enabled: "providers ?st \<noteq> []"
    by (simp add: newOrchestrator_def providerConfigs_def)
  have idle: "\<forall>p \<in> snd ` set (providers ?st). fst (isWithinRateLimit frozenClock p ?st)"
    by (simp add: newOrchestrator_def providerConfigs_def isWithinRateLimit_def countOf_def
          frozenClock_def)
  have request: "preferredProvider plainRequest = None" "requiredCapabilities plainRequest = None"
    by (simp_all add: plainRequest_def)
  obtain p where p: "fst (selectProvider frozenClock plainRequest ?st) = Some p"
    "p = hd (getAvailableProviders ?st)"
    using default_selection_is_lowest_priority [of ?st ?st plainRequest frozenClock]
      enabled idle request by blast
  have "getAvailableProviders ?st \<noteq> []" using listing by auto
  then have "name p = hd (map name (getAvailableProviders ?st))"
    using p(2) by (simp add: hd_map)
  then have "name p = ''Claude''" using listing by simp
  with p(1) listing show ?thesis by simp
qed

section \<open>C8: the fallback comes after the failed provider\<close>

text \<open>
  Claim C8.  Whatever \<open>getFallbackProvider\<close> returns stands in the priority-sorted
  listing at an index greater than the index \<open>findIndex\<close> finds for the failed
  provider.  So in a well-formed registry there is no fallback for the last provider
  of the listing; and when \<open>selectProvider\<close> returns that last provider (through
  \<open>preferredProvider\<close>, for example) and its call fails, \<open>generate\<close> throws that
  failure and has called no provider but the selected one, whatever the state of the
  providers before it in the listing.
\<close>

theorem fallback_is_later_in_listing:
  "(\<forall>fb. fst (getFallbackProvider clk current st) = Some fb \<longrightarrow>
      (\<exists>j. findIndex (\<lambda>p. name p = name current) (getAvailableProviders st) < int j \<and>
           j < length (getAvailableProviders st) \<and> getAvailableProviders st ! j = fb)) \<and>
   (wellFormed st \<and> providers st \<noteq> [] \<and> current = last (getAvailableProviders st) \<longrightarrow>
      fst (getFallbackProvider clk current st) = None) \<and>
   (wellFormed st \<and> fst (selectProvider clk request st) = Some current \<and>
    current = last (getAvailableProviders st) \<and> getCredential (name current) = Inl err \<longrightarrow>
      fst (generate clk getCredential request st) = Inl err \<and>
      callLog (snd (generate clk getCredential request st)) = callLog st @ [name current])"
proof (intro conjI allI impI)
  fix fb
  assume "fst (getFallbackProvider clk current st) = Some fb"
  then show "\<exists>j. findIndex (\<lambda>p. name p = name current) (getAvailableProviders st) < int j \<and>
           j < length (getAvailableProviders st) \<and> getAvailableProviders st ! j = fb"
    by (rule getFallbackProvider_later)
next
  assume "wellFormed st \<and> providers st \<noteq> [] \<and> current = last (getAvailableProviders st)"
  then show "fst (getFallbackProvider clk current st) = None"
    by (simp add: getFallbackProvider_of_last)
next
  assume a: "wellFormed st \<and> fst (selectProvider clk request st) = Some current \<and>
    current = last (getAvailableProviders st) \<and> getCredential (name current) = Inl err"
  let ?st1 = "snd (selectProvider clk request st)"
  let ?st4 = "afterFirstCall current ?st1"
  have p4: "providers ?st4 = providers st"
    by (simp add: afterFirstCall_frame selectProvider_frame)
  have enabled: "providers st \<noteq> []"
  proof
    assume "providers st = []"
    then have "fst (selectProvider clk request st) = None"
      by (simp add: selectProvider_rules)
    with a show False by simp
  qed
  have "getFallbackProvider clk current ?st4 = (None, ?st4)"
  proof (rule getFallbackProvider_of_last)
    show "wellFormed ?st4" using a wellFormed_cong [OF p4] by simp
    show "providers ?st4 \<noteq> []" using enabled p4 by simp
    show "current = last (getAvailableProviders ?st4)"
      using a getAvailableProviders_cong [OF p4] by simp
  qed
  then have none: "fst (getFallbackProvider clk current ?st4) = None"
    "snd (getFallbackProvider clk current ?st4) = ?st4"
    by simp_all
  have sel: "fst (selectProvider clk request st) = Some current"
    and fails: "getCredential (name current) = Inl err"
    using a by blast+
  have "generate clk getCredential request st = (Inl err, ?st4)"
  proof (cases rule: generate_cases [of clk request st getCredential])
    case none
    with sel show ?thesis by simp
  next
    case (first_ok s credential)
    from first_ok(1) sel have "s = current" by simp
    with first_ok(2) fails show ?thesis by simp
  next
    case (no_fallback s e)
    from no_fallback(1) sel have s: "s = current" by simp
    with no_fallback(2) fails have "e = err" by simp
    with no_fallback(4) s none(2) show ?thesis by simp
  next
    case (fallback_ok s e fallback credential)
    from fallback_ok(1) sel have "s = current" by simp
    with fallback_ok(3) none(1) show ?thesis by simp
  next
    case (fallback_failed s e fallback err2)
    from fallback_failed(1) sel have "s = current" by simp
    with fallback_failed(3) none(1) show ?thesis by simp
  qed
  then show "fst (generate clk getCredential request st) = Inl err"
    and "callLog (snd (generate clk getCredential request st)) = callLog st @ [name current]"
    by (simp_all add: afterFirstCall_frame selectProvider_frame)
qed

text \<open>
  \<open>A\<close>, \<open>B\<close> and \<open>C\<close> are enabled and have used no slot.  The fallback for \<open>A\<close> is
  \<open>B\<close>, which stands after \<open>A\<close> in the listing; there is no fallback for \<open>C\<close>, the
  last of the listing.  A request that prefers \<open>C\<close> is given \<open>C\<close>; when every call
  fails, \<open>generate\<close> throws the failure of \<open>C\<close> after calling \<open>C\<close> alone, although \<open>A\<close>
  and \<open>B\<close> pass their admission checks.
\<close>

theorem fallback_is_later_in_listing_witness:
  "map name (getAvailableProviders (registryOf [providerA, providerB, providerC] (\<lambda>_. 0)))
     = [''A'', ''B'', ''C''] \<and>
   fst (getFallbackProvider frozenClock providerA
          (registryOf [providerA, providerB, providerC] (\<lambda>_. 0))) = Some providerB \<and>
   (\<exists>j. 0 < j \<and> j < 3 \<and>
        getAvailableProviders (registryOf [providerA, providerB, providerC] (\<lambda>_. 0)) ! j = providerB) \<and>
   fst (getFallbackProvider frozenClock providerC
          (registryOf [providerA, providerB, providerC] (\<lambda>_. 0))) = None \<and>
   fst (isWithinRateLimit frozenClock providerA (registryOf [providerA, providerB, providerC] (\<lambda>_. 0))) \<and>
   fst (isWithinRateLimit frozenClock providerB (registryOf [providerA, providerB, providerC] (\<lambda>_. 0))) \<and>
   fst (generate frozenClock allFail (plainRequest\<lparr>preferredProvider := Some ''C''\<rparr>)
          (registryOf [providerA, providerB, providerC] (\<lambda>_. 0))) = Inl (CallFailed ''C'') \<and>
   callLog (snd (generate frozenClock allFail (plainRequest\<lparr>preferredProvider := Some ''C''\<rparr>)
          (registryOf [providerA, providerB, providerC] (\<lambda>_. 0)))) = [''C'']"
proof -
  let ?st = "registryOf [providerA, providerB, providerC] (\<lambda>_. 0)"
  let ?request = "plainRequest\<lparr>preferredProvider := Some ''C''\<rparr>"
  have listing: "getAvailableProviders ?st = [providerA, providerB, providerC]"
    by (simp add: getAvailableProviders_def example_defs)
  have names: "map name (getAvailableProviders ?st) = [''A'', ''B'', ''C'']"
    by (simp add: listing) (simp add: example_defs)
  have within: "fst (isWithinRateLimit frozenClock providerA ?st)"
    "fst (isWithinRateLimit frozenClock providerB ?st)"
    by (simp_all add: isWithinRateLimit_def countOf_def example_defs)
  have wf: "wellFormed ?st"
    by (simp add: wellFormed_def example_defs)
  have enabled: "providers ?st \<noteq> []"
    by (simp add: registryOf_def)
  have sel: "fst (selectProvider frozenClock ?request ?st) = Some providerC"
    by (simp add: selectProvider_rules preferredRule_def isWithinRateLimit_def countOf_def
          example_defs)
  have last: "providerC = last (getAvailableProviders ?st)"
    by (simp add: listing)
  have fails: "allFail (name providerC) = Inl (CallFailed ''C'')"
    by (simp add: example_defs)
  have log: "callLog ?st = []" "name providerC = ''C''"
    by (simp_all add: example_defs)
  have fb: "fst (getFallbackProvider frozenClock providerA ?st) = Some providerB"
    by (simp add: getFallbackProvider_def listing) 
       (simp add: isWithinRateLimit_def countOf_def example_defs)
  have index: "findIndex (\<lambda>p. name p = name providerA) (getAvailableProviders ?st) = 0"
    by (simp add: listing)
  have later: "\<exists>j. 0 < j \<and> j < 3 \<and> getAvailableProviders ?st ! j = providerB"
    using fallback_is_later_in_listing [of frozenClock providerA ?st] fb index listing
    by auto
  have after_last: "fst (getFallbackProvider frozenClock providerC ?st) = None"
    using fallback_is_later_in_listing [of frozenClock providerC ?st] wf enabled last by blast
  have thrown: "fst (generate frozenClock allFail ?request ?st) = Inl (CallFailed ''C'') \<and>
      callLog (snd (generate frozenClock allFail ?request ?st)) = callLog ?st @ [name providerC]"
    using fallback_is_later_in_listing [of frozenClock providerC ?st ?request allFail "CallFailed ''C''"]
      wf sel last fails
    by blast
  then have surfaced: "fst (generate frozenClock allFail ?request ?st) = Inl (CallFailed ''C'')"
    "callLog (snd (generate frozenClock allFail ?request ?st)) = [''C'']"
    using log by simp_all
  show ?thesis
    using names fb later after_last within surfaced by blast
qed

section \<open>C9: the fallback call is not counted\<close>

text \<open>
  Claim C9 says that after a \<open>generate\<close> that fell back the selected provider's count
  has gone up by one and the fallback's count is unchanged.  Take \<open>A\<close>, \<open>B\<close> and \<open>C\<close>
  with counts 0, 5 and 3, the window started at 0, and a clock that reads 0, then 10,
  then 70000.  The call to \<open>A\<close> fails; the admission check that \<open>getFallbackProvider\<close>
  runs for \<open>B\<close> reads 70000 and resets every count, so \<open>B\<close> passes and is called.
  Afterwards the count of \<open>A\<close> is 0, not 1, and the count of \<open>B\<close> is 0, not 5.
\<close>

theorem fallback_is_not_charged_counterexample:
  "wellFormed (registryOf [providerA, providerB, providerC]
                 (\<lambda>n. if n = ''B'' then 5 else if n = ''C'' then 3 else 0)) \<and>
   countsWithinLimits (registryOf [providerA, providerB, providerC]
                 (\<lambda>n. if n = ''B'' then 5 else if n = ''C'' then 3 else 0)) \<and>
   map (countOf (registryOf [providerA, providerB, providerC]
                 (\<lambda>n. if n = ''B'' then 5 else if n = ''C'' then 3 else 0))) [''A'', ''B'', ''C'']
     = [0, 5, 3] \<and>
   callLog (snd (generate jumpingClock firstFails plainRequest
                   (registryOf [providerA, providerB, providerC]
                      (\<lambda>n. if n = ''B'' then 5 else if n = ''C'' then 3 else 0))))
     = [''A'', ''B''] \<and>
   map (countOf (snd (generate jumpingClock firstFails plainRequest
                   (registryOf [providerA, providerB, providerC]
                      (\<lambda>n. if n = ''B'' then 5 else if n = ''C'' then 3 else 0)))))
       [''A'', ''B'', ''C'']
     = [0, 0, 0]"
proof -
  let ?st = "registryOf [providerA, providerB, providerC]
               (\<lambda>n. if n = ''B'' then 5 else if n = ''C'' then 3 else 0)"
  have "wellFormed ?st"
    by (simp add: wellFormed_def example_defs)
  moreover have "countsWithinLimits ?st"
    by (simp add: countsWithinLimits_def countOf_def example_defs)
  moreover have "map (countOf ?st) [''A'', ''B'', ''C''] = [0, 5, 3]"
    by (simp add: countOf_def example_defs)
  moreover have "callLog (snd (generate jumpingClock firstFails plainRequest ?st)) = [''A'', ''B'']"
    by (simp add: run_defs example_defs jumpingClock_def firstFails_def)
  moreover have "map (countOf (snd (generate jumpingClock firstFails plainRequest ?st)))
                   [''A'', ''B'', ''C''] = [0, 0, 0]"
    by (simp add: run_defs example_defs jumpingClock_def firstFails_def)
  ultimately show ?thesis by simp
qed

text \<open>
  Claim C9, amended.  In a well-formed registry, take a \<open>generate\<close> that fell back:
  it called a first provider \<open>s\<close> and then a second provider \<open>f\<close>.  Then \<open>s\<close> is the
  provider that \<open>selectProvider\<close> returned and \<open>f\<close> is another provider.  The
  fallback call is not counted: no count other than that of \<open>s\<close> has been raised (each
  is what it was, or 0 after a window reset), and the count of \<open>s\<close> is its old value
  plus one, or 1 or 0 after a window reset.  While the window does not roll over, the
  counts after the call are the counts before it with the count of \<open>s\<close> raised by
  one, so the count of \<open>f\<close> is unchanged.
\<close>

theorem fallback_is_not_charged:
  assumes "wellFormed st"
    and "callLog (snd (generate clk getCredential request st)) = callLog st @ [s, f]"
  shows "s \<noteq> f \<and>
         map_option name (fst (selectProvider clk request st)) = Some s \<and>
         (\<forall>k. k \<noteq> s \<longrightarrow>
            countOf (snd (generate clk getCredential request st)) k = countOf st k \<or>
            countOf (snd (generate clk getCredential request st)) k = 0) \<and>
         (countOf (snd (generate clk getCredential request st)) s = countOf st s + 1 \<or>
          countOf (snd (generate clk getCredential request st)) s = 1 \<or>
          countOf (snd (generate clk getCredential request st)) s = 0) \<and>
         (noRollover clk st \<longrightarrow>
            requestCounts (snd (generate clk getCredential request st))
              = (requestCounts st)(s \<mapsto> countOf st s + 1) \<and>
            countOf (snd (generate clk getCredential request st)) s = countOf st s + 1 \<and>
            countOf (snd (generate clk getCredential request st)) f = countOf st f)"
proof -
  let ?st' = "snd (generate clk getCredential request st)"
  let ?st1 = "snd (selectProvider clk request st)"
  have two: "\<exists>selected err fallback.
          fst (selectProvider clk request st) = Some selected \<and>
          getCredential (name selected) = Inl err \<and>
          fst (getFallbackProvider clk selected (afterFirstCall selected ?st1)) = Some fallback \<and>
          s = name selected \<and> f = name fallback"
  proof (cases rule: generate_cases [of clk request st getCredential])
    case none
    with assms(2) generate_callLog(1) [of clk request st getCredential] show ?thesis by simp
  next
    case (first_ok selected credential)
    with assms(2) generate_callLog(2) [of clk request st selected getCredential credential]
    show ?thesis by simp
  next
    case (no_fallback selected err)
    with assms(2) generate_callLog(3) [of clk request st selected getCredential err]
    show ?thesis by simp
  next
    case (fallback_ok selected err fallback credential)
    with assms(2) generate_callLog(4) [of clk request st selected getCredential err fallback]
    show ?thesis by simp
  next
    case (fallback_failed selected err fallback err2)
    with assms(2) generate_callLog(4) [of clk request st selected getCredential err fallback]
    show ?thesis by simp
  qed
  then obtain selected err fallback where
    sel: "fst (selectProvider clk request st) = Some selected"
    and fb: "fst (getFallbackProvider clk selected (afterFirstCall selected ?st1)) = Some fallback"
    and s: "s = name selected" and f: "f = name fallback"
    by blast
  let ?st4 = "afterFirstCall selected ?st1"
  have p4: "providers ?st4 = providers st"
    by (simp add: afterFirstCall_frame selectProvider_frame)
  have "name fallback \<noteq> name selected"
  proof (rule getFallbackProvider_other(1) [OF _ _ fb])
    show "wellFormed ?st4" using assms(1) wellFormed_cong [OF p4] by simp
    show "selected \<in> snd ` set (providers ?st4)"
      using selectProvider_Some(1) [OF sel] p4 by simp
  qed
  then have distinct: "s \<noteq> f" using s f by simp
  have a1: "admissionOnly st ?st1" by (rule selectProvider_admissionOnly)
  have a4: "admissionOnly ?st4 (?st'\<lparr>callLog := callLog ?st4\<rparr>)"
    using sel by (rule generate_counts_after_selection)
  have others: "countOf ?st' k = countOf st k \<or> countOf ?st' k = 0" if "k \<noteq> s" for k
  proof -
    have "countOf ?st4 k = countOf ?st1 k"
      using that s by (simp add: afterFirstCall_countOf)
    moreover have "countOf ?st1 k = countOf st k \<or> countOf ?st1 k = 0"
      using a1 by (rule admissionOnly_countOf)
    moreover have "countOf ?st' k = countOf ?st4 k \<or> countOf ?st' k = 0"
      using admissionOnly_countOf [OF a4, of k] by simp
    ultimately show ?thesis by auto
  qed
  have own: "countOf ?st' s = countOf st s + 1 \<or> countOf ?st' s = 1 \<or> countOf ?st' s = 0"
  proof -
    have "countOf ?st4 s = countOf ?st1 s + 1"
      using s by (simp add: afterFirstCall_countOf)
    moreover have "countOf ?st1 s = countOf st s \<or> countOf ?st1 s = 0"
      using a1 by (rule admissionOnly_countOf)
    moreover have "countOf ?st' s = countOf ?st4 s \<or> countOf ?st' s = 0"
      using admissionOnly_countOf [OF a4, of s] by simp
    ultimately show ?thesis by auto
  qed
  have steady: "requestCounts ?st' = (requestCounts st)(s \<mapsto> countOf st s + 1) \<and>
                countOf ?st' s = countOf st s + 1 \<and> countOf ?st' f = countOf st f"
    if nr: "noRollover clk st"
  proof -
    have c: "requestCounts ?st' = (requestCounts st)(s \<mapsto> countOf st s + 1)"
      using generate_noRollover_counts(1) [OF nr sel] s by simp
    then show ?thesis using distinct by (simp add: countOf_def)
  qed
  show ?thesis
    using distinct sel s others own steady by simp
qed

text \<open>
  \<open>A\<close> and \<open>B\<close> have used no slot; the call to \<open>A\<close> fails and the call to \<open>B\<close>
  succeeds.  \<open>generate\<close> answers from \<open>B\<close>, and afterwards the count of \<open>A\<close> is 1 and
  the count of \<open>B\<close> is still 0.
\<close>

theorem fallback_is_not_charged_witness:
  "fst (generate frozenClock (\<lambda>n. if n = ''A'' then Inl (CallFailed n) else Inr ''key'')
          plainRequest (registryOf [providerA, providerB] (\<lambda>_. 0)))
     = Inr \<lparr>responseText = ''[Response from B]'', provider = ''B'', responseModel = ''model-b'',
            tokensUsed = 5, responseLatency = 0, cached = False\<rparr> \<and>
   callLog (snd (generate frozenClock (\<lambda>n. if n = ''A'' then Inl (CallFailed n) else Inr ''key'')
             plainRequest (registryOf [providerA, providerB] (\<lambda>_. 0)))) = [''A'', ''B''] \<and>
   map (countOf (snd (generate frozenClock (\<lambda>n. if n = ''A'' then Inl (CallFailed n) else Inr ''key'')
             plainRequest (registryOf [providerA, providerB] (\<lambda>_. 0))))) [''A'', ''B''] = [1, 0]"
proof -
  let ?st = "registryOf [providerA, providerB] (\<lambda>_. 0)"
  let ?credential = "\<lambda>n. if n = ''A'' then Inl (CallFailed n) else Inr ''key''"
  let ?st' = "snd (generate frozenClock ?credential plainRequest ?st)"
  have wf: "wellFormed ?st"
    by (simp add: wellFormed_def example_defs)
  have answer: "fst (generate frozenClock ?credential plainRequest ?st)
     = Inr \<lparr>responseText = ''[Response from B]'', provider = ''B'', responseModel = ''model-b'',
            tokensUsed = 5, responseLatency = 0, cached = False\<rparr>"
    by (simp add: run_defs example_defs)
  have log: "callLog ?st' = callLog ?st @ [''A'', ''B'']"
    by (simp add: run_defs example_defs)
  have nr: "noRollover frozenClock ?st"
    by (simp add: noRollover_def example_defs)
  have before: "countOf ?st ''A'' = 0" "countOf ?st ''B'' = 0" "callLog ?st = []"
    by (simp_all add: countOf_def example_defs)
  have "countOf ?st' ''A'' = countOf ?st ''A'' + 1 \<and> countOf ?st' ''B'' = countOf ?st ''B''"
    using fallback_is_not_charged [OF wf log] nr by blast
  then show ?thesis
    using answer log before by simp
qed

section \<open>C10: the preferred provider is returned without a capability check\<close>

text \<open>
  Claim C10.  A request sets \<open>preferredProvider\<close> to the (non-empty) name of an enabled
  provider and also sets a non-empty \<open>requiredCapabilities\<close>.  If the preferred
  provider passes its admission check, \<open>selectProvider\<close> returns it.  Nothing is
  assumed about the provider's capabilities: the preferred path never reads them, so
  the provider is returned also when it lacks some or all of the required ones.
\<close>

theorem preferred_provider_skips_capability_check:
  assumes "preferredProvider request = Some n" and "n \<noteq> []"
    and "requiredCapabilities request = Some required" and "required \<noteq> []"
    and "map_of (providers st) n = Some p"
    and "fst (isWithinRateLimit clk p st)"
  shows "fst (selectProvider clk request st) = Some p"
proof -
  have "providers st \<noteq> []"
    using assms(5) by auto
  moreover have "preferredRule clk request st = (Some p, snd (isWithinRateLimit clk p st))"
    using assms(1,2,5,6) by (rule preferredRule_hit)
  ultimately show ?thesis
    by (simp add: selectProvider_rules)
qed

text \<open>
  Provider \<open>A\<close> lacks \<open>vision\<close>, provider \<open>B\<close> has it; a request that prefers \<open>A\<close> and
  requires \<open>vision\<close> is given \<open>A\<close>.
\<close>

theorem preferred_provider_skips_capability_check_witness:
  "\<not> hasAllCapabilities [''vision''] providerA \<and>
   hasAllCapabilities [''vision''] providerB \<and>
   fst (selectProvider frozenClock
          (plainRequest\<lparr>preferredProvider := Some ''A'', requiredCapabilities := Some [''vision'']\<rparr>)
          (registryOf [providerB, providerA] (\<lambda>_. 0))) = Some providerA"
proof -
  let ?request = "plainRequest\<lparr>preferredProvider := Some ''A'', requiredCapabilities := Some [''vision'']\<rparr>"
  let ?st = "registryOf [providerB, providerA] (\<lambda>_. 0)"
  have 1: "preferredProvider ?request = Some ''A''" by simp
  have 2: "''A'' \<noteq> []" by simp
  have 3: "requiredCapabilities ?request = Some [''vision'']" by simp
  have 4: "[''vision''] \<noteq> []" by simp
  have 5: "map_of (providers ?st) ''A'' = Some providerA"
    by (simp add: registryOf_def providerA_def providerB_def)
  have 6: "fst (isWithinRateLimit frozenClock providerA ?st)"
    by (simp add: isWithinRateLimit_def countOf_def registryOf_def providerA_def providerB_def frozenClock_def)
  have caps: "\<not> hasAllCapabilities [''vision''] providerA \<and> hasAllCapabilities [''vision''] providerB"
    by (simp add: hasAllCapabilities_def providerA_def providerB_def)
  show ?thesis
    using preferred_provider_skips_capability_check [OF 1 2 3 4 5 6] caps by simp
qed

end
